theory Spec2Isabelle
  imports Main "HOL-Library.AList"
begin

section \<open>Common notions\<close>

text \<open>
  The utilities of \<^verbatim>\<open>core/utils.ts\<close> are embedded function by function. A JavaScript
  exception is a value of type \<open>error\<close>; a function that may throw returns
  \<open>error + 'a\<close> with \<open>Inl\<close> for the exception.
\<close>

datatype error = TypeError | NetworkError | Exception

text \<open>
  An object is the list of its own enumerable string-keyed properties, in the order
  \<^verbatim>\<open>Object.entries\<close> lists them. \<open>obj[k] = v\<close> on such a list is \<open>AList.update\<close>: an
  existing key keeps its place, a new key goes to the end.
\<close>

definition keys_distinct :: "('k \<times> 'v) list \<Rightarrow> bool" where
  "keys_distinct ps = distinct (map fst ps)"

text \<open>\<^verbatim>\<open>{ ...a, ...b }\<close>: the properties of \<open>a\<close>, then each property of \<open>b\<close> assigned in turn.\<close>

definition spread2 :: "('k \<times> 'v) list \<Rightarrow> ('k \<times> 'v) list \<Rightarrow> ('k \<times> 'v) list" where
  "spread2 a b = fold (\<lambda>(k, v). AList.update k v) b a"

section \<open>Import maps\<close>

text \<open>
  \<^verbatim>\<open>type SpecifierMap = Record<string, string>\<close> and
  \<^verbatim>\<open>interface ImportMap { imports: SpecifierMap; scopes?: Record<string, SpecifierMap> }\<close>.

  \<^verbatim>\<open>resolveSpecifierMap\<close> assigns to the properties of the specifier map it is given, so
  specifier maps live in a store and an import map holds their addresses. The store is a
  list, an address is a position in it, and allocation appends. The import-map object and
  its \<open>scopes\<close> object are only read by the functions below, so they are values
  (fields \<open>im_imports\<close> and \<open>im_scopes\<close>: \<open>imports\<close> is reserved in a theory).

  \<^verbatim>\<open>new URL(url, base).href\<close> belongs to the platform, not to the repository: it is the
  parameter \<open>U\<close> of every function here, with \<open>Inl TypeError\<close> for a target that does not
  parse.

  A function that writes to the store returns the store as it has left it, also when it
  throws: what was assigned before the exception stays assigned.
\<close>

type_synonym addr = nat
type_synonym SpecifierMap = "(string \<times> string) list"
type_synonym store = "SpecifierMap list"
type_synonym url_rule = "string \<Rightarrow> string \<Rightarrow> error + string"

record ImportMap =
  im_imports :: addr
  im_scopes :: "(string \<times> addr) list option"

text \<open>
  The loop of \<^verbatim>\<open>resolveSpecifierMap\<close> over the entries \<^verbatim>\<open>Object.entries\<close> returned before
  the first assignment; each round writes \<^verbatim>\<open>specifierMap[specifier]\<close> in the store, and the
  round whose target does not parse throws.
\<close>

fun resolveEntries ::
  "url_rule \<Rightarrow> string \<Rightarrow> addr \<Rightarrow> (string \<times> string) list \<Rightarrow> store \<Rightarrow> (error + unit) \<times> store" where
  "resolveEntries U baseUrl a [] \<sigma> = (Inr (), \<sigma>)"
| "resolveEntries U baseUrl a ((specifier, url) # es) \<sigma> =
     (case U url baseUrl of
        Inl e \<Rightarrow> (Inl e, \<sigma>)
      | Inr href \<Rightarrow> resolveEntries U baseUrl a es (\<sigma>[a := AList.update specifier href (\<sigma> ! a)]))"

text \<open>
  An address outside the store stands for \<^verbatim>\<open>undefined\<close> (a map without the member), on
  which \<^verbatim>\<open>Object.entries\<close> throws a TypeError.
\<close>

definition resolveSpecifierMap ::
  "url_rule \<Rightarrow> addr \<Rightarrow> string \<Rightarrow> store \<Rightarrow> (error + unit) \<times> store" where
  "resolveSpecifierMap U specifierMap baseUrl \<sigma> =
     (if specifierMap < length \<sigma>
      then resolveEntries U baseUrl specifierMap (\<sigma> ! specifierMap) \<sigma>
      else (Inl TypeError, \<sigma>))"

fun resolveScopes ::
  "url_rule \<Rightarrow> string \<Rightarrow> addr list \<Rightarrow> store \<Rightarrow> (error + unit) \<times> store" where
  "resolveScopes U baseUrl [] \<sigma> = (Inr (), \<sigma>)"
| "resolveScopes U baseUrl (scope # rest) \<sigma> =
     (case resolveSpecifierMap U scope baseUrl \<sigma> of
        (Inl e, \<sigma>') \<Rightarrow> (Inl e, \<sigma>')
      | (Inr u, \<sigma>') \<Rightarrow> resolveScopes U baseUrl rest \<sigma>')"

definition resolveImportMap ::
  "url_rule \<Rightarrow> ImportMap \<Rightarrow> string \<Rightarrow> store \<Rightarrow> (error + unit) \<times> store" where
  "resolveImportMap U importMap baseUrl \<sigma> =
     (case resolveSpecifierMap U (im_imports importMap) baseUrl \<sigma> of
        (Inl e, \<sigma>1) \<Rightarrow> (Inl e, \<sigma>1)
      | (Inr u, \<sigma>1) \<Rightarrow>
          (case im_scopes importMap of
             None \<Rightarrow> (Inr (), \<sigma>1)
           | Some sc \<Rightarrow> resolveScopes U baseUrl (map snd sc) \<sigma>1))"

text \<open>
  The object literal of \<^verbatim>\<open>getImportMap\<close>: three entries resolved against the module-level
  \<^verbatim>\<open>baseUrl\<close>.
\<close>

definition canonical_imports :: "url_rule \<Rightarrow> string \<Rightarrow> error + SpecifierMap" where
  "canonical_imports U baseUrl =
     (case U ''./mod.ts'' baseUrl of
        Inl e \<Rightarrow> Inl e
      | Inr m \<Rightarrow>
          (case U ''./'' baseUrl of
             Inl e \<Rightarrow> Inl e
           | Inr r \<Rightarrow> Inr [(''lume'', m), (''lume/'', r), (''https://deno.land/x/lume/'', r)]))"

text \<open>Reading an object for a spread: \<^verbatim>\<open>...undefined\<close> contributes nothing.\<close>

definition own_entries :: "store \<Rightarrow> addr \<Rightarrow> SpecifierMap" where
  "own_entries \<sigma> a = (if a < length \<sigma> then \<sigma> ! a else [])"

text \<open>
  \<^verbatim>\<open>getImportMap(userMap?, url?)\<close>. The literal allocates the canonical specifier map;
  with a \<open>userMap\<close> the spread allocates a second one, which \<open>map.imports\<close> then names,
  and \<open>map.scopes\<close> is the very \<open>scopes\<close> of the user.
\<close>

definition getImportMap ::
  "url_rule \<Rightarrow> string \<Rightarrow> ImportMap option \<Rightarrow> string option \<Rightarrow> store \<Rightarrow>
     (error + ImportMap) \<times> store" where
  "getImportMap U baseUrl userMap url \<sigma> =
     (case canonical_imports U baseUrl of
        Inl e \<Rightarrow> (Inl e, \<sigma>)
      | Inr canon \<Rightarrow>
          (let \<sigma>0 = \<sigma> @ [canon];
               map0 = \<lparr>im_imports = length \<sigma>, im_scopes = None\<rparr>
           in case userMap of
                None \<Rightarrow> (Inr map0, \<sigma>0)
              | Some um \<Rightarrow>
                  (case (case url of None \<Rightarrow> (Inr (), \<sigma>0) | Some u \<Rightarrow> resolveImportMap U um u \<sigma>0) of
                     (Inl e, \<sigma>1) \<Rightarrow> (Inl e, \<sigma>1)
                   | (Inr u, \<sigma>1) \<Rightarrow>
                       (Inr \<lparr>im_imports = length \<sigma>1, im_scopes = im_scopes um\<rparr>,
                        \<sigma>1 @ [spread2 (\<sigma>1 ! im_imports map0) (own_entries \<sigma>1 (im_imports um))]))))"

text \<open>
  Modelled from the URL Standard, which \<^verbatim>\<open>new URL(url, base).href\<close> follows, on the two
  forms of target the examples use.

  \<^item> An absolute target \<^verbatim>\<open>scheme://host/path\<close> whose scheme is \<open>http\<close> or \<open>https\<close> in any
    case of letters, whose host is made of letters and single dots between them, and
    whose path is made of letters, digits, \<^verbatim>\<open>-\<close>, \<^verbatim>\<open>_\<close>, \<^verbatim>\<open>.\<close> and \<^verbatim>\<open>/\<close> with no segment
    starting with a dot. The parser lowers the case of the scheme and of the host, keeps
    the path, and serialises an empty path as \<^verbatim>\<open>/\<close>; the base plays no part.
  \<^item> A relative target \<^verbatim>\<open>./name\<close>, the name made of the same characters without \<^verbatim>\<open>/\<close> and
    not starting with a dot, against a base that is a serialised URL of the first form
    ending in \<^verbatim>\<open>/\<close>: the name appended to the base.

  Other targets are not modelled: the rule answers \<open>TypeError\<close> on them, which the
  platform does on some of them only. The rule serves the examples; the theorems hold
  for every rule \<open>U\<close>.
\<close>

definition lower :: "char \<Rightarrow> char" where
  "lower c =
     (case map_of (zip ''ABCDEFGHIJKLMNOPQRSTUVWXYZ'' ''abcdefghijklmnopqrstuvwxyz'') c of
        Some d \<Rightarrow> d
      | None \<Rightarrow> c)"

definition is_letter :: "char \<Rightarrow> bool" where
  "is_letter c \<longleftrightarrow> c \<in> set ''abcdefghijklmnopqrstuvwxyzABCDEFGHIJKLMNOPQRSTUVWXYZ''"

definition is_plain :: "char \<Rightarrow> bool" where
  "is_plain c \<longleftrightarrow> is_letter c \<or> c \<in> set ''0123456789-_.''"

definition adjacent :: "char \<Rightarrow> char \<Rightarrow> string \<Rightarrow> bool" where
  "adjacent c d s \<longleftrightarrow> (c, d) \<in> set (zip s (tl s))"

definition absolute_href :: "string \<Rightarrow> error + string" where
  "absolute_href url =
     (let scheme = map lower (takeWhile (\<lambda>c. c \<noteq> CHR '':'') url);
          rest = dropWhile (\<lambda>c. c \<noteq> CHR '':'') url;
          host = takeWhile (\<lambda>c. c \<noteq> CHR ''/'') (drop 3 rest);
          path = dropWhile (\<lambda>c. c \<noteq> CHR ''/'') (drop 3 rest)
      in if (scheme = ''http'' \<or> scheme = ''https'') \<and> take 3 rest = ''://'' \<and>
            host \<noteq> [] \<and> list_all (\<lambda>c. is_letter c \<or> c = CHR ''.'') host \<and>
            hd host \<noteq> CHR ''.'' \<and> last host \<noteq> CHR ''.'' \<and>
            \<not> adjacent (CHR ''.'') (CHR ''.'') host \<and>
            list_all (\<lambda>c. is_plain c \<or> c = CHR ''/'') path \<and>
            \<not> adjacent (CHR ''/'') (CHR ''.'') path
         then Inr (scheme @ ''://'' @ map lower host @ (if path = [] then ''/'' else path))
         else Inl TypeError)"

definition example_URL :: url_rule where
  "example_URL url base =
     (case absolute_href url of
        Inr href \<Rightarrow> Inr href
      | Inl e \<Rightarrow>
          if take 2 url = ''./'' \<and> list_all is_plain (drop 2 url) \<and> take 1 (drop 2 url) \<noteq> ''.'' \<and>
             absolute_href base = Inr base \<and> last base = CHR ''/''
          then Inr (base @ drop 2 url)
          else Inl TypeError)"

text \<open>
  The specifier maps of an import map: \<open>imports\<close> first, then the scopes in the order of
  \<^verbatim>\<open>Object.values\<close>. An import map is well formed in a store when these are allocated
  objects, no two of them the same object, each with its keys distinct (as the keys of an
  object are).
\<close>

definition specifier_maps :: "ImportMap \<Rightarrow> addr list" where
  "specifier_maps importMap =
     im_imports importMap # (case im_scopes importMap of None \<Rightarrow> [] | Some sc \<Rightarrow> map snd sc)"

definition wf_ImportMap :: "store \<Rightarrow> ImportMap \<Rightarrow> bool" where
  "wf_ImportMap \<sigma> importMap \<longleftrightarrow>
     distinct (specifier_maps importMap) \<and>
     list_all (\<lambda>a. a < length \<sigma> \<and> keys_distinct (\<sigma> ! a)) (specifier_maps importMap)"

text \<open>A specifier map with every target replaced by what the URL rule makes of it.\<close>

definition resolved_map :: "url_rule \<Rightarrow> string \<Rightarrow> SpecifierMap \<Rightarrow> SpecifierMap" where
  "resolved_map U baseUrl m = map (\<lambda>(k, t). (k, case U t baseUrl of Inr r \<Rightarrow> r | Inl _ \<Rightarrow> t)) m"

text \<open>
  A specifier map whose first \<open>n\<close> entries have been resolved: the state a loop that
  throws at entry \<open>n\<close> leaves it in.
\<close>

definition resolved_upto :: "url_rule \<Rightarrow> string \<Rightarrow> nat \<Rightarrow> SpecifierMap \<Rightarrow> SpecifierMap" where
  "resolved_upto U baseUrl n m = resolved_map U baseUrl (take n m) @ drop n m"

text \<open>Every target of a specifier map parses.\<close>

definition all_parse :: "url_rule \<Rightarrow> string \<Rightarrow> SpecifierMap \<Rightarrow> bool" where
  "all_parse U baseUrl m = list_all (\<lambda>(k, t). \<not> isl (U t baseUrl)) m"

text \<open>
  The number of entries of a specifier map before the first whose target does not parse,
  which is where the loop of \<^verbatim>\<open>resolveSpecifierMap\<close> throws.
\<close>

definition parsed :: "url_rule \<Rightarrow> string \<Rightarrow> SpecifierMap \<Rightarrow> nat" where
  "parsed U baseUrl m = length (takeWhile (\<lambda>(k, t). \<not> isl (U t baseUrl)) m)"

text \<open>
  The specifier maps a call of \<^verbatim>\<open>resolveImportMap\<close> gets to: a map of the import map such
  that every map before it, in the order of \<open>specifier_maps\<close>, parses entirely.
\<close>

definition reached :: "url_rule \<Rightarrow> string \<Rightarrow> store \<Rightarrow> addr list \<Rightarrow> addr \<Rightarrow> bool" where
  "reached U baseUrl \<sigma> as a \<longleftrightarrow>
     a \<in> set as \<and> list_all (\<lambda>a'. all_parse U baseUrl (\<sigma> ! a')) (takeWhile (\<lambda>a'. a' \<noteq> a) as)"

section \<open>The bounded-concurrency runner\<close>

text \<open>
  \<^verbatim>\<open>concurrent(iterable, iteratorFn, limit = 200)\<close> runs on the single-threaded event loop:
  its body, the reaction it attaches with \<^verbatim>\<open>.then\<close> and the worker's own settling are
  separate jobs, and nothing but the order of those jobs varies between two runs on the
  same items. A run is therefore a list of events, each one job, applied to a state that
  holds what the source keeps in variables and promises:

  \<^item> \<open>source\<close>: what the iterable has yet to yield;
  \<^item> \<open>invoked\<close>: the arguments of the \<^verbatim>\<open>iteratorFn\<close> calls made so far, in call order; the
    \<open>i\<close>-th call is number \<open>i\<close>;
  \<^item> \<open>worker\<close>: per call, the state of the promise \<^verbatim>\<open>iteratorFn(item)\<close> returned;
  \<^item> \<open>handle\<close>: per call, the state of \<^verbatim>\<open>p = iteratorFn(item).then(...)\<close>;
  \<^item> \<open>executing\<close>: the array of the same name, a handle written as its call number;
  \<^item> \<open>pc\<close>: where the body of \<^verbatim>\<open>concurrent\<close> is suspended, or how it ended.
\<close>

datatype pstate = Pending | Fulfilled | Rejected

text \<open>
  A race is decided by the first of its promises to settle, whatever the others do later,
  so the state of a body waiting in \<^verbatim>\<open>Promise.race\<close> holds, with the handles the array held
  when the race was called, the handle that has decided it (\<open>None\<close> while none has settled).
\<close>

datatype pc =
    Pulling                          \<comment> \<open>at the head of \<^verbatim>\<open>for await\<close>, waiting for the iterator\<close>
  | Racing "nat list" "nat option"   \<comment> \<open>in \<^verbatim>\<open>await Promise.race(executing)\<close>\<close>
  | Joining "nat list"               \<comment> \<open>in \<^verbatim>\<open>await Promise.all(executing)\<close>, on the handles the array held\<close>
  | Returned                         \<comment> \<open>the promise of \<^verbatim>\<open>concurrent\<close> is fulfilled\<close>
  | Thrown                           \<comment> \<open>the promise of \<^verbatim>\<open>concurrent\<close> is rejected\<close>

record 'a run =
  source :: "'a list"
  invoked :: "'a list"
  worker :: "pstate list"
  handle :: "pstate list"
  executing :: "nat list"
  pc :: pc

datatype event =
    Next               \<comment> \<open>the iterator answers and the loop body runs to its next \<^verbatim>\<open>await\<close>\<close>
  | Settle nat bool    \<comment> \<open>the promise of call \<open>i\<close> fulfils (\<open>True\<close>) or rejects (\<open>False\<close>)\<close>
  | Reaction nat       \<comment> \<open>the job \<^verbatim>\<open>.then\<close> registered on the promise of call \<open>i\<close> runs\<close>
  | Wake nat           \<comment> \<open>the awaited race or all has settled through handle \<open>i\<close>; the body resumes\<close>
  | Finish             \<comment> \<open>the awaited \<^verbatim>\<open>Promise.all\<close> fulfils; the body returns\<close>

text \<open>\<^verbatim>\<open>Array.prototype.indexOf\<close>: the first position of the element, or \<open>-1\<close>.\<close>

definition indexOf :: "'b list \<Rightarrow> 'b \<Rightarrow> int" where
  "indexOf xs x = (if x \<in> set xs then int (length (takeWhile (\<lambda>y. y \<noteq> x) xs)) else - 1)"

text \<open>
  \<^verbatim>\<open>xs.splice(start, 1)\<close> as it leaves the array: a negative \<open>start\<close> counts from the end
  (so \<open>-1\<close> removes the last element), and the start is clamped to the array.
\<close>

definition splice1 :: "'b list \<Rightarrow> int \<Rightarrow> 'b list" where
  "splice1 xs start =
     (let n = int (length xs);
          k = nat (if start < 0 then max (n + start) 0 else min start n)
      in take k xs @ drop (Suc k) xs)"

text \<open>
  \<^verbatim>\<open>Promise.race(executing)\<close> subscribes to the handles in array order. A handle that has
  settled already has its reaction queued at once, ahead of the reaction to any handle
  that settles later: the first settled handle of the array decides the race, if there is
  one.
\<close>

definition first_settled :: "pstate list \<Rightarrow> nat list \<Rightarrow> nat option" where
  "first_settled hs snap = find (\<lambda>i. hs ! i \<noteq> Pending) snap"

text \<open>A handle settles while the body waits: a race that is undecided and holds it is decided.\<close>

fun settled :: "pc \<Rightarrow> nat \<Rightarrow> pc" where
  "settled (Racing snap None) i = (if i \<in> set snap then Racing snap (Some i) else Racing snap None)"
| "settled p i = p"

text \<open>
  One job. \<open>None\<close>: the job cannot run in this state.

  \<open>Next\<close> is lines 14 to 23 in one piece, since nothing suspends between the arrival of
  \<open>item\<close> and the test on \<open>executing.length\<close>: the worker is called, \<open>p\<close> is pushed, and the
  body either waits for the race of what the array holds now or goes back to the iterator.
  When the source is exhausted the body leaves the loop and waits for all of the array.

  \<open>Reaction i\<close> is the job of \<^verbatim>\<open>.then(() => executing.splice(executing.indexOf(p), 1))\<close>.
  The callback is the fulfilment handler: it runs when the worker's promise has fulfilled,
  and \<open>p\<close> fulfils with what it returns. There is no rejection handler, so when the
  worker's promise has rejected the callback is skipped and \<open>p\<close> rejects. Either way \<open>p\<close>
  settles in this job.

  \<open>Wake i\<close>: the awaited promise has settled through handle \<open>i\<close> and the body resumes. A
  race takes the outcome of the handle that decided it; \<^verbatim>\<open>Promise.all\<close> rejects as soon as
  one of its promises has rejected. A rejected \<^verbatim>\<open>await\<close> throws, and nothing in
  \<^verbatim>\<open>concurrent\<close> catches. \<open>Finish\<close>: \<^verbatim>\<open>Promise.all\<close> fulfils once every promise it was given
  has fulfilled.
\<close>

fun step :: "int \<Rightarrow> 'a run \<Rightarrow> event \<Rightarrow> 'a run option" where
  "step limit s Next =
     (if pc s \<noteq> Pulling then None
      else case source s of
        [] \<Rightarrow> Some (s\<lparr>pc := Joining (executing s)\<rparr>)
      | item # rest \<Rightarrow>
          (let p = length (invoked s);
               ex = executing s @ [p];
               hs = handle s @ [Pending]
           in Some (s\<lparr>source := rest,
                      invoked := invoked s @ [item],
                      worker := worker s @ [Pending],
                      handle := hs,
                      executing := ex,
                      pc := (if int (length ex) \<ge> limit then Racing ex (first_settled hs ex)
                             else Pulling)\<rparr>)))"
| "step limit s (Settle i ok) =
     (if i < length (worker s) \<and> worker s ! i = Pending
      then Some (s\<lparr>worker := (worker s)[i := (if ok then Fulfilled else Rejected)]\<rparr>)
      else None)"
| "step limit s (Reaction i) =
     (if i < length (worker s) \<and> i < length (handle s) \<and>
         handle s ! i = Pending \<and> worker s ! i \<noteq> Pending
      then (if worker s ! i = Fulfilled
            then Some (s\<lparr>executing := splice1 (executing s) (indexOf (executing s) i),
                         handle := (handle s)[i := Fulfilled],
                         pc := settled (pc s) i\<rparr>)
            else Some (s\<lparr>handle := (handle s)[i := Rejected], pc := settled (pc s) i\<rparr>))
      else None)"
| "step limit s (Wake i) =
     (case pc s of
        Racing snap winner \<Rightarrow>
          (if winner = Some i \<and> i < length (handle s) \<and> handle s ! i \<noteq> Pending
           then Some (s\<lparr>pc := (if handle s ! i = Fulfilled then Pulling else Thrown)\<rparr>)
           else None)
      | Joining snap \<Rightarrow>
          (if i \<in> set snap \<and> i < length (handle s) \<and> handle s ! i = Rejected
           then Some (s\<lparr>pc := Thrown\<rparr>)
           else None)
      | _ \<Rightarrow> None)"
| "step limit s Finish =
     (case pc s of
        Joining snap \<Rightarrow>
          (if list_all (\<lambda>i. i < length (handle s) \<and> handle s ! i = Fulfilled) snap
           then Some (s\<lparr>pc := Returned\<rparr>)
           else None)
      | _ \<Rightarrow> None)"

fun exec :: "int \<Rightarrow> 'a run \<Rightarrow> event list \<Rightarrow> 'a run option" where
  "exec limit s [] = Some s"
| "exec limit s (e # es) = (case step limit s e of None \<Rightarrow> None | Some s' \<Rightarrow> exec limit s' es)"

text \<open>
  \<^verbatim>\<open>concurrent(iterable, iteratorFn, limit)\<close> under a schedule: the state the schedule leads
  to from the call, or \<open>None\<close> if the schedule asks for a job that cannot run. \<open>limit\<close> is
  \<open>None\<close> when the caller leaves it out. What \<^verbatim>\<open>iteratorFn\<close> does is in the schedule:
  its calls are the \<open>Next\<close> events, its outcomes the \<open>Settle\<close> events.
\<close>

definition entered :: "'a list \<Rightarrow> 'a run" where
  "entered iterable =
     \<lparr>source = iterable, invoked = [], worker = [], handle = [], executing = [], pc = Pulling\<rparr>"

definition concurrent :: "'a list \<Rightarrow> int option \<Rightarrow> event list \<Rightarrow> 'a run option" where
  "concurrent iterable limit schedule =
     exec (case limit of None \<Rightarrow> 200 | Some l \<Rightarrow> l) (entered iterable) schedule"

text \<open>The worker invocations whose promise has not settled.\<close>

definition unresolved :: "'a run \<Rightarrow> nat" where
  "unresolved s = length (filter (\<lambda>w. w = Pending) (worker s))"

text \<open>
  The promise the body waits for has rejected, or the body has thrown already: the race
  was decided by a handle that rejected, or a handle given to \<^verbatim>\<open>Promise.all\<close> has rejected.
\<close>

definition rejecting :: "'a run \<Rightarrow> bool" where
  "rejecting s =
     (case pc s of
        Racing snap winner \<Rightarrow> (case winner of None \<Rightarrow> False | Some i \<Rightarrow> handle s ! i = Rejected)
      | Joining snap \<Rightarrow> list_ex (\<lambda>i. handle s ! i = Rejected) snap
      | Thrown \<Rightarrow> True
      | _ \<Rightarrow> False)"

text \<open>
  What every state of a run satisfies, in three parts. \<open>inv_log\<close>: the calls made so far are
  the items pulled so far, in order, and each has its two promises. \<open>inv_exec\<close>: the array
  holds, once each, the handles that have not fulfilled, and a handle that has settled
  has settled as its worker did. \<open>inv_pc\<close>: the array is never longer than the limit (one
  element at least), is strictly shorter while the loop is at its head, and holds only
  handles of the snapshot while the body waits; the handle that decided a race is one of
  the race and has settled.
\<close>

definition inv_log :: "'a list \<Rightarrow> 'a run \<Rightarrow> bool" where
  "inv_log items s \<longleftrightarrow>
     invoked s @ source s = items \<and>
     length (worker s) = length (invoked s) \<and>
     length (handle s) = length (invoked s)"

definition inv_exec :: "'a run \<Rightarrow> bool" where
  "inv_exec s \<longleftrightarrow>
     distinct (executing s) \<and>
     set (executing s) = {i. i < length (handle s) \<and> handle s ! i \<noteq> Fulfilled} \<and>
     (\<forall>i < length (handle s). handle s ! i = Pending \<or> handle s ! i = worker s ! i)"

definition inv_pc :: "int \<Rightarrow> 'a run \<Rightarrow> bool" where
  "inv_pc L s \<longleftrightarrow>
     int (length (executing s)) \<le> max L 1 \<and>
     (case pc s of
        Pulling \<Rightarrow> int (length (executing s)) < max L 1
      | Racing snap winner \<Rightarrow>
          distinct snap \<and> set (executing s) \<subseteq> set snap \<and> int (length snap) \<le> max L 1 \<and>
          (case winner of
             None \<Rightarrow> True
           | Some i \<Rightarrow> i \<in> set snap \<and> i < length (handle s) \<and> handle s ! i \<noteq> Pending)
      | Joining snap \<Rightarrow> source s = [] \<and> set (executing s) \<subseteq> set snap
      | Returned \<Rightarrow> source s = [] \<and> executing s = []
      | Thrown \<Rightarrow> True)"

definition run_inv :: "int \<Rightarrow> 'a list \<Rightarrow> 'a run \<Rightarrow> bool" where
  "run_inv L items s \<longleftrightarrow> inv_log items s \<and> inv_exec s \<and> inv_pc L s"

text \<open>
  Three more facts of every state, used to show how a run can end: a snapshot holds
  handles that exist, the snapshot of a race is not empty and its handles are all pending
  as long as the race is undecided, and \<open>concurrent\<close> has thrown only if a handle has
  rejected.
\<close>

definition inv_snap :: "'a run \<Rightarrow> bool" where
  "inv_snap s \<longleftrightarrow>
     (case pc s of
        Racing snap winner \<Rightarrow>
          snap \<noteq> [] \<and> list_all (\<lambda>i. i < length (handle s)) snap \<and>
          (winner = None \<longrightarrow> list_all (\<lambda>i. handle s ! i = Pending) snap)
      | Joining snap \<Rightarrow> list_all (\<lambda>i. i < length (handle s)) snap
      | Thrown \<Rightarrow> Rejected \<in> set (handle s)
      | _ \<Rightarrow> True)"

text \<open>No worker's promise has rejected so far.\<close>

definition no_rejection :: "'a run \<Rightarrow> bool" where
  "no_rejection s \<longleftrightarrow> Rejected \<notin> set (worker s)"

definition good :: "int \<Rightarrow> 'a list \<Rightarrow> 'a run \<Rightarrow> bool" where
  "good L items s \<longleftrightarrow> run_inv L items s \<and> inv_snap s \<and> no_rejection s"

text \<open>Where the body is, the handle that decided a race left out.\<close>

fun place :: "pc \<Rightarrow> pc" where
  "place (Racing snap winner) = Racing snap None"
| "place p = p"

section \<open>Numbers as strings\<close>

text \<open>
  \<^verbatim>\<open>Date.now().toString()\<close> writes an integer in decimal, with a minus sign when negative;
  the same rendering gives an array index its property name. Numbers are integers here:
  fractions, \<open>NaN\<close> and the rounding of integers beyond \<open>2^53\<close> are not modelled.
\<close>

definition digit_char :: "nat \<Rightarrow> char" where
  "digit_char d = ''0123456789'' ! d"

function digits :: "nat \<Rightarrow> string" where
  "digits n = (if n < 10 then [digit_char n] else digits (n div 10) @ [digit_char (n mod 10)])"
  by pat_completeness auto
termination
  by (relation "measure id") auto

definition number_toString :: "int \<Rightarrow> string" where
  "number_toString n = (if n < 0 then CHR ''-'' # digits (nat (- n)) else digits (nat n))"

text \<open>
  \<^verbatim>\<open>parseInt(string)\<close> without a radix: leading white space is skipped, a sign is read, a
  prefix \<^verbatim>\<open>0x\<close> or \<^verbatim>\<open>0X\<close> selects radix 16, and the longest run of digits of the radix is the
  value; with no digit the result is \<open>NaN\<close>, here \<open>None\<close>. White space is the ASCII part
  of what the language skips.
\<close>

definition is_white :: "char \<Rightarrow> bool" where
  "is_white c = (of_char c \<in> {9, 10, 11, 12, 13, 32 :: nat})"

definition digit_value :: "char \<Rightarrow> nat option" where
  "digit_value c =
     (let n = of_char c :: nat
      in if 48 \<le> n \<and> n \<le> 57 then Some (n - 48)
         else if 97 \<le> n \<and> n \<le> 102 then Some (n - 87)
         else if 65 \<le> n \<and> n \<le> 70 then Some (n - 55)
         else None)"

definition is_digit_of :: "nat \<Rightarrow> char \<Rightarrow> bool" where
  "is_digit_of radix c = (case digit_value c of Some d \<Rightarrow> d < radix | None \<Rightarrow> False)"

definition digits_value :: "nat \<Rightarrow> string \<Rightarrow> nat" where
  "digits_value radix z =
     foldl (\<lambda>a c. a * radix + (case digit_value c of Some d \<Rightarrow> d | None \<Rightarrow> 0)) 0 z"

definition strip_sign :: "string \<Rightarrow> bool \<times> string" where
  "strip_sign s =
     (if take 1 s = ''-'' then (True, drop 1 s)
      else if take 1 s = ''+'' then (False, drop 1 s)
      else (False, s))"

definition strip_radix :: "string \<Rightarrow> nat \<times> string" where
  "strip_radix s = (if take 2 s = ''0x'' \<or> take 2 s = ''0X'' then (16, drop 2 s) else (10, s))"

definition parseInt :: "string \<Rightarrow> int option" where
  "parseInt str =
     (let (negative, s1) = strip_sign (dropWhile is_white str);
          (radix, s2) = strip_radix s1;
          z = takeWhile (is_digit_of radix) s2
      in if z = [] then None
         else Some ((if negative then - 1 else 1) * int (digits_value radix z)))"

section \<open>The upgrade notifier\<close>

text \<open>
  \<^verbatim>\<open>getCurrentVersion\<close> reads the path of the module's base URL:
  \<^verbatim>\<open>pathname.match(/@([^/]+)/)?.[1] ?? `local (${pathname})`\<close>. The match is at the
  leftmost \<open>@\<close> that a character other than \<open>/\<close> follows, and the group is the run of such
  characters.
\<close>

fun match_version :: "string \<Rightarrow> string option" where
  "match_version [] = None"
| "match_version (c # cs) =
     (if c = CHR ''@'' \<and> takeWhile (\<lambda>x. x \<noteq> CHR ''/'') cs \<noteq> []
      then Some (takeWhile (\<lambda>x. x \<noteq> CHR ''/'') cs)
      else match_version cs)"

definition getCurrentVersion :: "string \<Rightarrow> string" where
  "getCurrentVersion pathname =
     (case match_version pathname of Some v \<Rightarrow> v | None \<Rightarrow> ''local ('' @ pathname @ '')'')"

text \<open>\<^verbatim>\<open>!!current.match(/^v\d+\./)\<close>.\<close>

definition is_decimal :: "char \<Rightarrow> bool" where
  "is_decimal c = (48 \<le> (of_char c :: nat) \<and> (of_char c :: nat) \<le> 57)"

definition stable_version :: "string \<Rightarrow> bool" where
  "stable_version current =
     (case current of
        [] \<Rightarrow> False
      | c # rest \<Rightarrow>
          c = CHR ''v'' \<and> takeWhile is_decimal rest \<noteq> [] \<and> take 1 (dropWhile is_decimal rest) = ''.'')"

text \<open>
  What the function touches outside itself: \<^verbatim>\<open>localStorage\<close> and the network. The world
  records the stored items and, in order, the URLs fetched. One call sees through \<open>env\<close>
  the path of the module, the two readings of \<^verbatim>\<open>Date.now()\<close> it makes (\<open>now1\<close> in the test
  of the cached timestamp, \<open>now2\<close> for the timestamp it stores) and what the network answers:
  per URL, the version the reply's JSON gives, or the failure of the fetch.
\<close>

record world =
  localStorage :: "string \<rightharpoonup> string"
  fetched :: "string list"

record env =
  pathname :: string
  now1 :: int
  now2 :: int
  response :: "string \<Rightarrow> error + string"

text \<open>
  \<^verbatim>\<open>interface UpgradeInfo { current; latest; command }\<close>, the fields prefixed so that the
  function below can keep \<open>current\<close> and \<open>latest\<close> for its variables.
\<close>

record UpgradeInfo =
  info_current :: string
  info_latest :: string
  info_command :: string

definition getLatestVersion :: "env \<Rightarrow> world \<Rightarrow> (error + string) \<times> world" where
  "getLatestVersion e w =
     (response e ''https://cdn.deno.land/lume/meta/versions.json'',
      w\<lparr>fetched := fetched w @ [''https://cdn.deno.land/lume/meta/versions.json'']\<rparr>)"

definition getLatestDevelopmentVersion :: "env \<Rightarrow> world \<Rightarrow> (error + string) \<times> world" where
  "getLatestDevelopmentVersion e w =
     (response e ''https://api.github.com/repos/lumeland/lume/commits?per_page=1'',
      w\<lparr>fetched := fetched w @ [''https://api.github.com/repos/lumeland/lume/commits?per_page=1'']\<rparr>)"

definition expires :: int where
  "expires = 1000 * 60 * 60 * 24"

text \<open>
  \<^verbatim>\<open>interval && parseInt(interval) + expires > Date.now()\<close>: an absent item is \<open>null\<close> and
  an empty one is the empty string, both falsy; a comparison with \<open>NaN\<close> is false.
\<close>

definition cache_fresh :: "string option \<Rightarrow> int \<Rightarrow> bool" where
  "cache_fresh interval now =
     (case interval of
        None \<Rightarrow> False
      | Some i \<Rightarrow> i \<noteq> [] \<and> (case parseInt i of None \<Rightarrow> False | Some t \<Rightarrow> t + expires > now))"

definition mustNotifyUpgrade :: "env \<Rightarrow> world \<Rightarrow> (error + UpgradeInfo option) \<times> world" where
  "mustNotifyUpgrade e w =
     (let current = getCurrentVersion (pathname e)
      in if take 6 current = ''local '' then (Inr None, w)
         else
           (let stable = stable_version current;
                interval = localStorage w ''lume-upgrade''
            in if cache_fresh interval (now1 e) then (Inr None, w)
               else
                 (let w1 = w\<lparr>localStorage :=
                               (localStorage w)(''lume-upgrade'' \<mapsto> number_toString (now2 e))\<rparr>;
                      (answer, w2) = (if stable then getLatestVersion e w1
                                      else getLatestDevelopmentVersion e w1)
                  in case answer of
                       Inl err \<Rightarrow> (Inl err, w2)
                     | Inr latest \<Rightarrow>
                         if current = latest then (Inr None, w2)
                         else (Inr (Some \<lparr>info_current = current, info_latest = latest,
                                           info_command = (if stable then ''lume upgrade''
                                                      else ''lume upgrade --dev'')\<rparr>), w2))))"

text \<open>A series of calls, each with its own environment, on the world the one before left.\<close>

definition calls :: "env list \<Rightarrow> world \<Rightarrow> world" where
  "calls es w = foldl (\<lambda>w e. snd (mustNotifyUpgrade e w)) w es"

text \<open>The URL a check fetches: the versions file for a stable version, the commits otherwise.\<close>

definition endpoint :: "string \<Rightarrow> string" where
  "endpoint p =
     (if stable_version (getCurrentVersion p)
      then ''https://cdn.deno.land/lume/meta/versions.json''
      else ''https://api.github.com/repos/lumeland/lume/commits?per_page=1'')"

section \<open>Values\<close>

text \<open>
  The values \<^verbatim>\<open>merge\<close> and \<^verbatim>\<open>isPlainObject\<close> are given, as finite trees. An object is
  ordinary: it has its own enumerable string-keyed data properties, in the order
  \<^verbatim>\<open>Object.entries\<close> lists them, and its prototype is \<^verbatim>\<open>Object.prototype\<close> or \<open>null\<close>. An
  array has its elements and nothing else. A function is what
  \<^verbatim>\<open>Function.prototype.toString\<close> prints of it and what a call of it returns (\<open>None\<close>: the call
  throws); it has no properties. A symbol is one of the registry, \<^verbatim>\<open>Symbol.for(key)\<close>.

  Not modelled: accessor properties, symbol keys, proxies, \<^verbatim>\<open>Symbol.toStringTag\<close> and
  \<^verbatim>\<open>Symbol.toPrimitive\<close>, holes in arrays, numbers other than integers, and the accessor
  \<^verbatim>\<open>__proto__\<close> of \<^verbatim>\<open>Object.prototype\<close>: the key \<^verbatim>\<open>__proto__\<close> is read and assigned as
  any other key here (see \<open>proto_free\<close> below). Integer-like keys keep their place in the
  list, while the source enumerates them first. Cycles need a store: see the section on
  \<open>merge\<close> in a store.
\<close>

datatype proto = ObjectPrototype | NullPrototype

datatype jsval =
    Undefined
  | Null
  | Bool bool
  | Num int
  | Str string
  | Symbol string
  | Function string "jsval option"
  | Array "jsval list"
  | Object proto "(string \<times> jsval) list"

text \<open>\<^verbatim>\<open>!!v\<close>.\<close>

fun truthy :: "jsval \<Rightarrow> bool" where
  "truthy Undefined = False"
| "truthy Null = False"
| "truthy (Bool b) = b"
| "truthy (Num n) = (n \<noteq> 0)"
| "truthy (Str s) = (s \<noteq> [])"
| "truthy _ = True"

text \<open>\<^verbatim>\<open>typeof v === "object" && v !== null\<close>.\<close>

fun is_object :: "jsval \<Rightarrow> bool" where
  "is_object (Array xs) = True"
| "is_object (Object pr ps) = True"
| "is_object _ = False"

text \<open>A value that is not of the language's type Object: what \<open>ToPrimitive\<close> accepts.\<close>

fun is_primitive :: "jsval \<Rightarrow> bool" where
  "is_primitive (Function src body) = False"
| "is_primitive (Array xs) = False"
| "is_primitive (Object pr ps) = False"
| "is_primitive _ = True"

text \<open>\<open>ToString\<close> of a primitive; a symbol does not convert.\<close>

fun prim_to_string :: "jsval \<Rightarrow> error + string" where
  "prim_to_string Undefined = Inr ''undefined''"
| "prim_to_string Null = Inr ''null''"
| "prim_to_string (Bool b) = Inr (if b then ''true'' else ''false'')"
| "prim_to_string (Num n) = Inr (number_toString n)"
| "prim_to_string (Str s) = Inr s"
| "prim_to_string _ = Inl TypeError"

text \<open>
  \<^verbatim>\<open>obj[name]\<close> on the properties of an ordinary object whose own properties do not
  include \<open>name\<close> reads the prototype. For the two names the conversions use,
  \<^verbatim>\<open>Object.prototype\<close> has a method; \<open>null\<close> has nothing.

  \<open>call_method pr ps name\<close> is \<^verbatim>\<open>obj[name]()\<close> by cases: \<open>None\<close> when \<^verbatim>\<open>obj[name]\<close> is not
  callable, else what the call returns or throws. \<^verbatim>\<open>Object.prototype.toString\<close> returns
  \<^verbatim>\<open>[object Object]\<close> on an ordinary object; \<^verbatim>\<open>Object.prototype.valueOf\<close> returns the object
  itself.
\<close>

definition call_method ::
  "proto \<Rightarrow> (string \<times> jsval) list \<Rightarrow> string \<Rightarrow> (error + jsval) option" where
  "call_method pr ps name =
     (case map_of ps name of
        Some (Function src body) \<Rightarrow>
          Some (case body of None \<Rightarrow> Inl Exception | Some v \<Rightarrow> Inr v)
      | Some _ \<Rightarrow> None
      | None \<Rightarrow>
          (case pr of
             NullPrototype \<Rightarrow> None
           | ObjectPrototype \<Rightarrow>
               if name = ''toString'' then Some (Inr (Str ''[object Object]''))
               else if name = ''valueOf'' then Some (Inr (Object pr ps))
               else None))"

text \<open>
  \<open>ToString\<close> of an ordinary object: \<open>ToPrimitive\<close> with hint string tries \<open>toString\<close>,
  then \<open>valueOf\<close>, takes the first result that is a primitive, and throws a TypeError when
  there is none.
\<close>

definition object_to_string :: "proto \<Rightarrow> (string \<times> jsval) list \<Rightarrow> error + string" where
  "object_to_string pr ps =
     (let second =
        (case call_method pr ps ''valueOf'' of
           Some (Inl e) \<Rightarrow> Inl e
         | Some (Inr v) \<Rightarrow> if is_primitive v then prim_to_string v else Inl TypeError
         | None \<Rightarrow> Inl TypeError)
      in case call_method pr ps ''toString'' of
           Some (Inl e) \<Rightarrow> Inl e
         | Some (Inr v) \<Rightarrow> if is_primitive v then prim_to_string v else second
         | None \<Rightarrow> second)"

text \<open>The separator-joined strings of \<^verbatim>\<open>Array.prototype.join\<close>.\<close>

fun join_strings :: "string list \<Rightarrow> string" where
  "join_strings [] = []"
| "join_strings [s] = s"
| "join_strings (s # ss) = s @ '','' @ join_strings ss"

text \<open>
  \<open>ToString\<close> of any value. An array converts through \<^verbatim>\<open>Array.prototype.toString\<close>, which
  is \<^verbatim>\<open>join\<close>: each element converted in turn, \<^verbatim>\<open>undefined\<close> and \<open>null\<close> as the empty
  string. A function converts to its source text.
\<close>

fun to_string :: "jsval \<Rightarrow> error + string"
  and element_strings :: "jsval list \<Rightarrow> error + string list" where
  "to_string (Array xs) =
     (case element_strings xs of Inl e \<Rightarrow> Inl e | Inr ss \<Rightarrow> Inr (join_strings ss))"
| "to_string (Object pr ps) = object_to_string pr ps"
| "to_string (Function src body) = Inr src"
| "to_string v = prim_to_string v"
| "element_strings [] = Inr []"
| "element_strings (x # xs) =
     (case (if x = Undefined \<or> x = Null then Inr [] else to_string x) of
        Inl e \<Rightarrow> Inl e
      | Inr s \<Rightarrow> (case element_strings xs of Inl e \<Rightarrow> Inl e | Inr ss \<Rightarrow> Inr (s # ss)))"

text \<open>
  \<^verbatim>\<open>obj.toString()\<close> as \<open>isPlainObject\<close> calls it, on an array or an ordinary object: the
  method is looked up and called, and a value that is not callable there is a TypeError.
\<close>

fun toString :: "jsval \<Rightarrow> error + jsval" where
  "toString (Array xs) = (case to_string (Array xs) of Inl e \<Rightarrow> Inl e | Inr s \<Rightarrow> Inr (Str s))"
| "toString (Object pr ps) =
     (case call_method pr ps ''toString'' of None \<Rightarrow> Inl TypeError | Some r \<Rightarrow> r)"
| "toString v = Inl TypeError"

text \<open>
  \<^verbatim>\<open>obj[key]\<close> on own properties. A key that is not an own property is read from the
  prototype in the source, which gives \<^verbatim>\<open>undefined\<close> or, for the names of the methods of
  \<^verbatim>\<open>Object.prototype\<close>, a function; \<open>isPlainObject\<close>, the only reader of the result, answers
  false on both, and here the read gives \<open>Undefined\<close>.
\<close>

definition get :: "(string \<times> jsval) list \<Rightarrow> string \<Rightarrow> jsval" where
  "get ps key = (case map_of ps key of Some v \<Rightarrow> v | None \<Rightarrow> Undefined)"

text \<open>
  \<^verbatim>\<open>const reactElement = Symbol.for("react.element")\<close> and \<^verbatim>\<open>isPlainObject\<close>, conjunct by
  conjunct; an array has no property \<^verbatim>\<open>$$typeof\<close>.
\<close>

definition reactElement :: jsval where
  "reactElement = Symbol ''react.element''"

definition isPlainObject :: "jsval \<Rightarrow> error + bool" where
  "isPlainObject obj =
     (if \<not> is_object obj then Inr False
      else case toString obj of
             Inl e \<Rightarrow> Inl e
           | Inr s \<Rightarrow>
               if s \<noteq> Str ''[object Object]'' then Inr False
               else Inr ((case obj of Object pr ps \<Rightarrow> get ps ''$$typeof'' | _ \<Rightarrow> Undefined)
                         \<noteq> reactElement))"

text \<open>
  The own enumerable string-keyed properties of a value, which is what \<^verbatim>\<open>{ ...v }\<close> copies
  and what \<^verbatim>\<open>Object.entries(v)\<close> lists: the properties of an object, the elements of an
  array under their indices, the characters of a string under theirs, and nothing for
  any other value.
\<close>

fun own_props :: "jsval \<Rightarrow> (string \<times> jsval) list" where
  "own_props (Object pr ps) = ps"
| "own_props (Array xs) = zip (map digits [0..<length xs]) xs"
| "own_props (Str s) = zip (map digits [0..<length s]) (map (\<lambda>c. Str [c]) s)"
| "own_props _ = []"

section \<open>Deep merge\<close>

text \<open>
  The recursion of \<open>merge\<close> ends because it descends into the user's value, and only
  into one that passed \<open>isPlainObject\<close>: an array or an object, whose properties weigh less
  than it does. (A string would not do: its characters are strings with themselves as
  first character.)
\<close>

definition entries_weight :: "(string \<times> jsval) list \<Rightarrow> nat" where
  "entries_weight es = sum_list (map (\<lambda>(k, v). Suc (size v)) es)"

lemma entries_weight_Cons [simp]:
  "entries_weight ((k, v) # es) = Suc (size v) + entries_weight es"
  by (simp add: entries_weight_def)

lemma entries_weight_zip:
  "length ks = length xs \<Longrightarrow> entries_weight (zip ks xs) = size_list size xs"
  by (induction ks xs rule: list_induct2) (simp_all add: entries_weight_def)

lemma entries_weight_props:
  "entries_weight ps \<le> size_list (size_prod (\<lambda>x. 0) size) ps"
  by (induction ps) (auto simp: entries_weight_def)

lemma plain_weight:
  "isPlainObject v = Inr True \<Longrightarrow> entries_weight (own_props v) \<le> size v"
proof (cases v)
  case (Array xs)
  then show ?thesis by (simp add: entries_weight_zip)
next
  case (Object pr ps)
  then show ?thesis using entries_weight_props [of ps] by simp
qed (simp_all add: isPlainObject_def)

text \<open>
  \<^verbatim>\<open>merge(defaults, user?)\<close>. \<open>merged\<close> is the property list of the object the spread
  creates; \<open>merge_entries\<close> is the loop over \<^verbatim>\<open>Object.entries(user)\<close>, with \<^verbatim>\<open>&&\<close> testing
  the user's value only when the merged one is plain.
\<close>

function merge :: "jsval \<Rightarrow> jsval \<Rightarrow> error + jsval"
  and merge_entries :: "(string \<times> jsval) list \<Rightarrow> (string \<times> jsval) list \<Rightarrow> error + (string \<times> jsval) list" where
  "merge defaults user =
     (let merged = own_props defaults
      in if \<not> truthy user then Inr (Object ObjectPrototype merged)
         else case merge_entries merged (own_props user) of
                Inl e \<Rightarrow> Inl e
              | Inr m \<Rightarrow> Inr (Object ObjectPrototype m))"
| "merge_entries merged [] = Inr merged"
| "merge_entries merged ((key, value) # rest) =
     (case isPlainObject (get merged key) of
        Inl e \<Rightarrow> Inl e
      | Inr False \<Rightarrow> merge_entries (AList.update key value merged) rest
      | Inr True \<Rightarrow>
          (case isPlainObject value of
             Inl e \<Rightarrow> Inl e
           | Inr False \<Rightarrow> merge_entries (AList.update key value merged) rest
           | Inr True \<Rightarrow>
               (case merge (get merged key) value of
                  Inl e \<Rightarrow> Inl e
                | Inr r \<Rightarrow> merge_entries (AList.update key r merged) rest)))"
  by pat_completeness auto
termination merge
proof (relation "measure (\<lambda>x. case x of Inl (d, u) \<Rightarrow> 2 * entries_weight (own_props u) + 1
                                        | Inr (m, es) \<Rightarrow> 2 * entries_weight es)", goal_cases)
  case 1
  then show ?case by simp
next
  case (2 defaults user x)
  then show ?case by simp
next
  case (3 merged key "value" rest b ba)
  then show ?case using plain_weight [of "value"] by simp
qed simp_all




section \<open>Deep merge in a store\<close>

text \<open>
  Whether \<open>merge\<close> changes its arguments, and what it does on a value that contains
  itself, cannot be read off trees: objects are shared and assigned to. Here objects,
  arrays and functions live in a store, a value is a primitive or the address of one of
  them, \<^verbatim>\<open>{ ...defaults }\<close> allocates, and \<^verbatim>\<open>merged[key] = v\<close> writes to the object at an
  address. The functions are those of the sections on values and on the deep merge, with
  the store as an argument. What they leave unmodelled is the same, and a call of a
  function leaves the store as it is.

  A conversion to a string descends through the store and need not end (an array may be
  its own element); so may \<open>merge\<close> (an object may be its own property). These functions
  take fuel, the depth they may descend, and give \<open>None\<close> when it runs out. The engines cut
  a conversion of an array short when they meet it again; the model follows the language
  specification, where it runs on.
\<close>

datatype hval =
    HUndefined
  | HNull
  | HBool bool
  | HNum int
  | HStr string
  | HSymbol string
  | Ref addr

datatype hobj =
    HFunction string "hval option"
  | HArray "hval list"
  | HObject proto "(string \<times> hval) list"

type_synonym heap = "hobj list"

definition obj_at :: "heap \<Rightarrow> addr \<Rightarrow> hobj option" where
  "obj_at h a = (if a < length h then Some (h ! a) else None)"

fun h_truthy :: "hval \<Rightarrow> bool" where
  "h_truthy HUndefined = False"
| "h_truthy HNull = False"
| "h_truthy (HBool b) = b"
| "h_truthy (HNum n) = (n \<noteq> 0)"
| "h_truthy (HStr s) = (s \<noteq> [])"
| "h_truthy _ = True"

fun h_is_object :: "heap \<Rightarrow> hval \<Rightarrow> bool" where
  "h_is_object h (Ref a) =
     (case obj_at h a of
        Some (HArray xs) \<Rightarrow> True
      | Some (HObject pr ps) \<Rightarrow> True
      | _ \<Rightarrow> False)"
| "h_is_object h _ = False"

fun h_is_primitive :: "hval \<Rightarrow> bool" where
  "h_is_primitive (Ref a) = False"
| "h_is_primitive _ = True"

fun h_prim_to_string :: "hval \<Rightarrow> error + string" where
  "h_prim_to_string HUndefined = Inr ''undefined''"
| "h_prim_to_string HNull = Inr ''null''"
| "h_prim_to_string (HBool b) = Inr (if b then ''true'' else ''false'')"
| "h_prim_to_string (HNum n) = Inr (number_toString n)"
| "h_prim_to_string (HStr s) = Inr s"
| "h_prim_to_string _ = Inl TypeError"

text \<open>\<^verbatim>\<open>self[name]()\<close> for the ordinary object at \<open>self\<close>, as \<open>call_method\<close>.\<close>

definition h_call_method ::
  "heap \<Rightarrow> hval \<Rightarrow> proto \<Rightarrow> (string \<times> hval) list \<Rightarrow> string \<Rightarrow> (error + hval) option" where
  "h_call_method h self pr ps name =
     (case map_of ps name of
        Some (Ref f) \<Rightarrow>
          (case obj_at h f of
             Some (HFunction src body) \<Rightarrow>
               Some (case body of None \<Rightarrow> Inl Exception | Some v \<Rightarrow> Inr v)
           | _ \<Rightarrow> None)
      | Some _ \<Rightarrow> None
      | None \<Rightarrow>
          (case pr of
             NullPrototype \<Rightarrow> None
           | ObjectPrototype \<Rightarrow>
               if name = ''toString'' then Some (Inr (HStr ''[object Object]''))
               else if name = ''valueOf'' then Some (Inr self)
               else None))"

definition h_object_to_string ::
  "heap \<Rightarrow> hval \<Rightarrow> proto \<Rightarrow> (string \<times> hval) list \<Rightarrow> error + string" where
  "h_object_to_string h self pr ps =
     (let second =
        (case h_call_method h self pr ps ''valueOf'' of
           Some (Inl e) \<Rightarrow> Inl e
         | Some (Inr v) \<Rightarrow> if h_is_primitive v then h_prim_to_string v else Inl TypeError
         | None \<Rightarrow> Inl TypeError)
      in case h_call_method h self pr ps ''toString'' of
           Some (Inl e) \<Rightarrow> Inl e
         | Some (Inr v) \<Rightarrow> if h_is_primitive v then h_prim_to_string v else second
         | None \<Rightarrow> second)"

fun h_to_string :: "nat \<Rightarrow> heap \<Rightarrow> hval \<Rightarrow> (error + string) option"
  and h_element_strings :: "nat \<Rightarrow> heap \<Rightarrow> hval list \<Rightarrow> (error + string list) option" where
  "h_to_string 0 h v = None"
| "h_to_string (Suc n) h (Ref a) =
     (case obj_at h a of
        Some (HArray xs) \<Rightarrow>
          (case h_element_strings n h xs of
             None \<Rightarrow> None
           | Some (Inl e) \<Rightarrow> Some (Inl e)
           | Some (Inr ss) \<Rightarrow> Some (Inr (join_strings ss)))
      | Some (HObject pr ps) \<Rightarrow> Some (h_object_to_string h (Ref a) pr ps)
      | Some (HFunction src body) \<Rightarrow> Some (Inr src)
      | None \<Rightarrow> Some (Inl TypeError))"
| "h_to_string (Suc n) h v = Some (h_prim_to_string v)"
| "h_element_strings n h [] = Some (Inr [])"
| "h_element_strings n h (x # xs) =
     (case (if x = HUndefined \<or> x = HNull then Some (Inr []) else h_to_string n h x) of
        None \<Rightarrow> None
      | Some (Inl e) \<Rightarrow> Some (Inl e)
      | Some (Inr s) \<Rightarrow>
          (case h_element_strings n h xs of
             None \<Rightarrow> None
           | Some (Inl e) \<Rightarrow> Some (Inl e)
           | Some (Inr ss) \<Rightarrow> Some (Inr (s # ss))))"

text \<open>\<^verbatim>\<open>obj.toString()\<close> on the array or ordinary object at an address, as \<open>toString\<close>.\<close>

definition h_toString :: "nat \<Rightarrow> heap \<Rightarrow> hval \<Rightarrow> (error + hval) option" where
  "h_toString n h obj =
     (case obj of
        Ref a \<Rightarrow>
          (case obj_at h a of
             Some (HArray xs) \<Rightarrow>
               (case h_to_string n h (Ref a) of
                  None \<Rightarrow> None
                | Some (Inl e) \<Rightarrow> Some (Inl e)
                | Some (Inr s) \<Rightarrow> Some (Inr (HStr s)))
           | Some (HObject pr ps) \<Rightarrow>
               (case h_call_method h (Ref a) pr ps ''toString'' of
                  None \<Rightarrow> Some (Inl TypeError)
                | Some r \<Rightarrow> Some r)
           | _ \<Rightarrow> Some (Inl TypeError))
      | _ \<Rightarrow> Some (Inl TypeError))"

text \<open>\<^verbatim>\<open>obj[key]\<close> on the own properties of the object at an address, as \<open>get\<close>.\<close>

definition h_get :: "heap \<Rightarrow> addr \<Rightarrow> string \<Rightarrow> hval" where
  "h_get h a key =
     (case obj_at h a of
        Some (HObject pr ps) \<Rightarrow> (case map_of ps key of Some v \<Rightarrow> v | None \<Rightarrow> HUndefined)
      | _ \<Rightarrow> HUndefined)"

text \<open>\<^verbatim>\<open>obj[key] = v\<close> on the ordinary object at an address.\<close>

definition h_set :: "heap \<Rightarrow> addr \<Rightarrow> string \<Rightarrow> hval \<Rightarrow> heap" where
  "h_set h a key v =
     (case obj_at h a of
        Some (HObject pr ps) \<Rightarrow> h[a := HObject pr (AList.update key v ps)]
      | _ \<Rightarrow> h)"

definition h_isPlainObject :: "nat \<Rightarrow> heap \<Rightarrow> hval \<Rightarrow> (error + bool) option" where
  "h_isPlainObject n h obj =
     (if \<not> h_is_object h obj then Some (Inr False)
      else case h_toString n h obj of
             None \<Rightarrow> None
           | Some (Inl e) \<Rightarrow> Some (Inl e)
           | Some (Inr s) \<Rightarrow>
               if s \<noteq> HStr ''[object Object]'' then Some (Inr False)
               else Some (Inr ((case obj of Ref a \<Rightarrow> h_get h a ''$$typeof'' | _ \<Rightarrow> HUndefined)
                               \<noteq> HSymbol ''react.element'')))"

fun h_own_props :: "heap \<Rightarrow> hval \<Rightarrow> (string \<times> hval) list" where
  "h_own_props h (Ref a) =
     (case obj_at h a of
        Some (HObject pr ps) \<Rightarrow> ps
      | Some (HArray xs) \<Rightarrow> zip (map digits [0..<length xs]) xs
      | _ \<Rightarrow> [])"
| "h_own_props h (HStr s) = zip (map digits [0..<length s]) (map (\<lambda>c. HStr [c]) s)"
| "h_own_props h _ = []"

text \<open>
  \<open>merge_h\<close> is \<^verbatim>\<open>merge\<close>: the spread allocates \<open>merged\<close> at the end of the store, the loop
  reads and writes the object there, and a recursive call works on the store as the loop
  has left it. The result is what the call returns or throws, with the store at that
  point; \<open>None\<close> when the fuel runs out.
\<close>

fun merge_h :: "nat \<Rightarrow> heap \<Rightarrow> hval \<Rightarrow> hval \<Rightarrow> ((error + hval) \<times> heap) option"
  and merge_entries_h ::
    "nat \<Rightarrow> heap \<Rightarrow> addr \<Rightarrow> (string \<times> hval) list \<Rightarrow> ((error + hval) \<times> heap) option" where
  "merge_h 0 h defaults user = None"
| "merge_h (Suc n) h defaults user =
     (let merged = length h;
          h1 = h @ [HObject ObjectPrototype (h_own_props h defaults)]
      in if \<not> h_truthy user then Some (Inr (Ref merged), h1)
         else merge_entries_h n h1 merged (h_own_props h1 user))"
| "merge_entries_h n h merged [] = Some (Inr (Ref merged), h)"
| "merge_entries_h n h merged ((key, value) # rest) =
     (case h_isPlainObject n h (h_get h merged key) of
        None \<Rightarrow> None
      | Some (Inl e) \<Rightarrow> Some (Inl e, h)
      | Some (Inr False) \<Rightarrow> merge_entries_h n (h_set h merged key value) merged rest
      | Some (Inr True) \<Rightarrow>
          (case h_isPlainObject n h value of
             None \<Rightarrow> None
           | Some (Inl e) \<Rightarrow> Some (Inl e, h)
           | Some (Inr False) \<Rightarrow> merge_entries_h n (h_set h merged key value) merged rest
           | Some (Inr True) \<Rightarrow>
               (case merge_h n h (h_get h merged key) value of
                  None \<Rightarrow> None
                | Some (Inl e, h') \<Rightarrow> Some (Inl e, h')
                | Some (Inr r, h') \<Rightarrow> merge_entries_h n (h_set h' merged key r) merged rest)))"

section \<open>Properties of the import-map resolver\<close>

lemma update_middle:
  "k \<notin> fst ` set pre \<Longrightarrow> AList.update k v (pre @ (k, t) # es) = pre @ (k, v) # es"
  by (induction pre) auto

lemma parsed_le: "parsed U b m \<le> length m"
  by (simp add: parsed_def length_takeWhile_le)

lemma parsed_all: "all_parse U b m \<longleftrightarrow> parsed U b m = length m"
proof -
  have "length (takeWhile P m) = length m \<longleftrightarrow> list_all P m" for P :: "string \<times> string \<Rightarrow> bool"
    by (induction m) (auto simp: list_all_iff)
  then show ?thesis by (simp add: parsed_def all_parse_def)
qed

lemma resolved_upto_all: "resolved_upto U b (length m) m = resolved_map U b m"
  by (simp add: resolved_upto_def)

lemma resolved_upto_0: "resolved_upto U b 0 m = m"
  by (simp add: resolved_upto_def resolved_map_def)

lemma resolved_map_keys: "map fst (resolved_map U b m) = map fst m"
  by (induction m) (auto simp: resolved_map_def)

lemma resolved_upto_keys: "map fst (resolved_upto U b n m) = map fst m"
proof -
  have "map fst (take n m) @ map fst (drop n m) = map fst (take n m @ drop n m)"
    by (simp only: map_append)
  then show ?thesis by (simp add: resolved_upto_def resolved_map_keys)
qed

text \<open>
  The loop over the entries, whatever it meets: the entries before the first that does
  not parse are resolved in place, and the loop throws exactly when there is such an entry.
\<close>

lemma resolveEntries_run:
  assumes "distinct (map fst (pre @ es))" "a < length \<sigma>" "\<sigma> ! a = pre @ es"
  shows "snd (resolveEntries U b a es \<sigma>) = \<sigma>[a := pre @ resolved_upto U b (parsed U b es) es] \<and>
         (fst (resolveEntries U b a es \<sigma>) = Inr () \<longleftrightarrow> all_parse U b es)"
  using assms
proof (induction es arbitrary: pre \<sigma>)
  case Nil
  then show ?case
    by (simp add: resolved_upto_def resolved_map_def all_parse_def) (metis list_update_id)
next
  case (Cons e es)
  obtain k t where e: "e = (k, t)" by (cases e)
  show ?case
  proof (cases "U t b")
    case (Inl err)
    have "\<sigma>[a := pre @ e # es] = \<sigma>" using Cons.prems(3) by (metis list_update_id)
    with Inl e show ?thesis
      by (simp add: parsed_def resolved_upto_def resolved_map_def all_parse_def)
  next
    case (Inr r)
    have notin: "k \<notin> fst ` set pre" using Cons.prems(1) e by auto
    let ?\<sigma>1 = "\<sigma>[a := AList.update k r (\<sigma> ! a)]"
    have upd: "AList.update k r (\<sigma> ! a) = (pre @ [(k, r)]) @ es"
      using Cons.prems(3) e notin by (simp add: update_middle)
    have ih: "snd (resolveEntries U b a es ?\<sigma>1)
                = ?\<sigma>1[a := (pre @ [(k, r)]) @ resolved_upto U b (parsed U b es) es] \<and>
              (fst (resolveEntries U b a es ?\<sigma>1) = Inr () \<longleftrightarrow> all_parse U b es)"
    proof (rule Cons.IH)
      show "distinct (map fst ((pre @ [(k, r)]) @ es))" using Cons.prems(1) e by simp
      show "a < length ?\<sigma>1" using Cons.prems(2) by simp
      show "?\<sigma>1 ! a = (pre @ [(k, r)]) @ es" using Cons.prems(2) upd by simp
    qed
    have p: "parsed U b ((k, t) # es) = Suc (parsed U b es)" using Inr by (simp add: parsed_def)
    have u: "resolved_upto U b (Suc (parsed U b es)) ((k, t) # es)
               = (k, r) # resolved_upto U b (parsed U b es) es"
      using Inr by (simp add: resolved_upto_def resolved_map_def)
    have ap: "all_parse U b ((k, t) # es) \<longleftrightarrow> all_parse U b es"
      using Inr by (simp add: all_parse_def)
    show ?thesis using ih Inr e by (simp add: p u ap)
  qed
qed

lemma resolveSpecifierMap_run:
  assumes "a < length \<sigma>" "keys_distinct (\<sigma> ! a)"
  shows "snd (resolveSpecifierMap U a b \<sigma>) = \<sigma>[a := resolved_upto U b (parsed U b (\<sigma> ! a)) (\<sigma> ! a)] \<and>
         (fst (resolveSpecifierMap U a b \<sigma>) = Inr () \<longleftrightarrow> all_parse U b (\<sigma> ! a))"
  using resolveEntries_run [of "[]" "\<sigma> ! a" a \<sigma> U b] assms
  by (simp add: resolveSpecifierMap_def keys_distinct_def)

text \<open>
  The loop over a list of distinct maps, whatever it meets: a map the loop gets to is
  resolved up to its first target that does not parse, any other object is as it was, and
  the loop throws exactly when some map has such a target.
\<close>

lemma resolveScopes_run:
  assumes "distinct as" "list_all (\<lambda>a. a < length \<sigma> \<and> keys_distinct (\<sigma> ! a)) as"
  shows "length (snd (resolveScopes U b as \<sigma>)) = length \<sigma> \<and>
         (\<forall>a < length \<sigma>. snd (resolveScopes U b as \<sigma>) ! a =
            (if reached U b \<sigma> as a then resolved_upto U b (parsed U b (\<sigma> ! a)) (\<sigma> ! a) else \<sigma> ! a)) \<and>
         (fst (resolveScopes U b as \<sigma>) = Inr () \<longleftrightarrow> list_all (\<lambda>a. all_parse U b (\<sigma> ! a)) as)"
  using assms
proof (induction as arbitrary: \<sigma>)
  case Nil
  then show ?case by (simp add: reached_def)
next
  case (Cons a0 as)
  let ?\<sigma>1 = "\<sigma>[a0 := resolved_upto U b (parsed U b (\<sigma> ! a0)) (\<sigma> ! a0)]"
  have a0: "a0 < length \<sigma>" "keys_distinct (\<sigma> ! a0)" "a0 \<notin> set as"
    using Cons.prems by simp_all
  from resolveSpecifierMap_run [OF a0(1,2), of U b]
  have first: "snd (resolveSpecifierMap U a0 b \<sigma>) = ?\<sigma>1"
    and ok: "fst (resolveSpecifierMap U a0 b \<sigma>) = Inr () \<longleftrightarrow> all_parse U b (\<sigma> ! a0)"
    by simp_all
  obtain res where res: "resolveSpecifierMap U a0 b \<sigma> = (res, ?\<sigma>1)"
    using first by (cases "resolveSpecifierMap U a0 b \<sigma>") simp
  have r0: "reached U b \<sigma> (a0 # as) a0" by (simp add: reached_def)
  show ?case
  proof (cases "all_parse U b (\<sigma> ! a0)")
    case False
    with ok res obtain e where e: "res = Inl e" by (cases res) auto
    have nr: "\<not> reached U b \<sigma> (a0 # as) a" if "a \<noteq> a0" for a
      using that False by (simp add: reached_def)
    have "snd (resolveScopes U b (a0 # as) \<sigma>) = ?\<sigma>1" using res e by simp
    moreover have "fst (resolveScopes U b (a0 # as) \<sigma>) = Inl e" using res e by simp
    ultimately show ?thesis using False r0 nr a0(1) by (auto simp: nth_list_update)
  next
    case True
    with ok res have u: "res = Inr ()" by simp
    have same: "?\<sigma>1 ! a = \<sigma> ! a" if "a \<in> set as" for a
      using that a0(3) by (metis nth_list_update_neq)
    have ih: "length (snd (resolveScopes U b as ?\<sigma>1)) = length ?\<sigma>1 \<and>
         (\<forall>a < length ?\<sigma>1. snd (resolveScopes U b as ?\<sigma>1) ! a =
            (if reached U b ?\<sigma>1 as a then resolved_upto U b (parsed U b (?\<sigma>1 ! a)) (?\<sigma>1 ! a) else ?\<sigma>1 ! a)) \<and>
         (fst (resolveScopes U b as ?\<sigma>1) = Inr () \<longleftrightarrow> list_all (\<lambda>a. all_parse U b (?\<sigma>1 ! a)) as)"
    proof (rule Cons.IH)
      show "distinct as" using Cons.prems(1) by simp
      show "list_all (\<lambda>a. a < length ?\<sigma>1 \<and> keys_distinct (?\<sigma>1 ! a)) as"
        using Cons.prems(2) same by (simp add: list_all_iff)
    qed
    have eq: "resolveScopes U b (a0 # as) \<sigma> = resolveScopes U b as ?\<sigma>1" using res u by simp
    have tw: "set (takeWhile P as) \<subseteq> set as" for P :: "nat \<Rightarrow> bool"
      by (auto dest: set_takeWhileD)
    have re: "reached U b ?\<sigma>1 as a \<longleftrightarrow> reached U b \<sigma> (a0 # as) a" if "a \<noteq> a0" for a
    proof -
      have "?\<sigma>1 ! a' = \<sigma> ! a'" if "a' \<in> set (takeWhile (\<lambda>a'. a' \<noteq> a) as)" for a'
        using that tw [of "\<lambda>a'. a' \<noteq> a"] same by blast
      then have "list_all (\<lambda>a'. all_parse U b (?\<sigma>1 ! a')) (takeWhile (\<lambda>a'. a' \<noteq> a) as)
            \<longleftrightarrow> list_all (\<lambda>a'. all_parse U b (\<sigma> ! a')) (takeWhile (\<lambda>a'. a' \<noteq> a) as)"
        by (simp add: list_all_iff)
      then show ?thesis using that True by (auto simp: reached_def)
    qed
    have nr: "\<not> reached U b ?\<sigma>1 as a0" using a0(3) by (simp add: reached_def)
    have nth: "snd (resolveScopes U b (a0 # as) \<sigma>) ! a =
            (if reached U b \<sigma> (a0 # as) a then resolved_upto U b (parsed U b (\<sigma> ! a)) (\<sigma> ! a) else \<sigma> ! a)"
      if "a < length \<sigma>" for a
    proof (cases "a = a0")
      case True
      with ih nr r0 a0(1) show ?thesis unfolding eq by simp
    next
      case False
      then have "?\<sigma>1 ! a = \<sigma> ! a" by (metis nth_list_update_neq)
      with ih re [OF False] that show ?thesis unfolding eq by simp
    qed
    have "list_all (\<lambda>a. all_parse U b (?\<sigma>1 ! a)) as \<longleftrightarrow> list_all (\<lambda>a. all_parse U b (\<sigma> ! a)) as"
      using same by (auto simp: list_all_iff)
    with ih True have "fst (resolveScopes U b (a0 # as) \<sigma>) = Inr () \<longleftrightarrow>
        list_all (\<lambda>a. all_parse U b (\<sigma> ! a)) (a0 # as)"
      unfolding eq by simp
    moreover have "length (snd (resolveScopes U b (a0 # as) \<sigma>)) = length \<sigma>"
      using ih unfolding eq by simp
    ultimately show ?thesis using nth by blast
  qed
qed

lemma resolveImportMap_resolveScopes:
  "resolveImportMap U M b \<sigma> = resolveScopes U b (specifier_maps M) \<sigma>"
  by (simp add: resolveImportMap_def specifier_maps_def split: prod.splits sum.splits option.splits)

text \<open>\<^verbatim>\<open>resolveImportMap\<close> on a well-formed import map, whatever it meets.\<close>

lemma resolveImportMap_run:
  assumes "wf_ImportMap \<sigma> M"
  shows "length (snd (resolveImportMap U M b \<sigma>)) = length \<sigma> \<and>
         (\<forall>a < length \<sigma>. snd (resolveImportMap U M b \<sigma>) ! a =
            (if reached U b \<sigma> (specifier_maps M) a
             then resolved_upto U b (parsed U b (\<sigma> ! a)) (\<sigma> ! a) else \<sigma> ! a)) \<and>
         (fst (resolveImportMap U M b \<sigma>) = Inr () \<longleftrightarrow>
            list_all (\<lambda>a. all_parse U b (\<sigma> ! a)) (specifier_maps M))"
  unfolding resolveImportMap_resolveScopes
  using assms by (intro resolveScopes_run) (simp_all add: wf_ImportMap_def)

lemma reached_all:
  "list_all (\<lambda>a. all_parse U b (\<sigma> ! a)) as \<Longrightarrow> reached U b \<sigma> as a \<longleftrightarrow> a \<in> set as"
  by (auto simp: reached_def list_all_iff dest: set_takeWhileD)

text \<open>\<^verbatim>\<open>resolveImportMap\<close> on a well-formed import map all of whose targets parse.\<close>

lemma resolveImportMap_ok:
  assumes wf: "wf_ImportMap \<sigma> M" and p: "list_all (\<lambda>a. all_parse U b (\<sigma> ! a)) (specifier_maps M)"
  obtains \<sigma>' where "resolveImportMap U M b \<sigma> = (Inr (), \<sigma>')" "length \<sigma>' = length \<sigma>"
    "\<forall>a < length \<sigma>. \<sigma>' ! a = (if a \<in> set (specifier_maps M) then resolved_map U b (\<sigma> ! a) else \<sigma> ! a)"
proof -
  let ?r = "resolveImportMap U M b \<sigma>"
  from resolveImportMap_run [OF wf, of U b] p
  have 1: "fst ?r = Inr ()" and 2: "length (snd ?r) = length \<sigma>"
    and 3: "\<forall>a < length \<sigma>. snd ?r ! a =
            (if reached U b \<sigma> (specifier_maps M) a
             then resolved_upto U b (parsed U b (\<sigma> ! a)) (\<sigma> ! a) else \<sigma> ! a)"
    by simp_all
  have "snd ?r ! a = (if a \<in> set (specifier_maps M) then resolved_map U b (\<sigma> ! a) else \<sigma> ! a)"
    if "a < length \<sigma>" for a
  proof (cases "a \<in> set (specifier_maps M)")
    case True
    then have "all_parse U b (\<sigma> ! a)" using p by (simp add: list_all_iff)
    then have "parsed U b (\<sigma> ! a) = length (\<sigma> ! a)" by (simp add: parsed_all)
    with 3 that True p show ?thesis by (simp add: reached_all resolved_upto_all)
  next
    case False
    with 3 that p show ?thesis by (simp add: reached_all)
  qed
  with 1 2 that [of "snd ?r"] show ?thesis by (cases ?r) auto
qed

lemma resolved_map_target:
  "all_parse U b m \<Longrightarrow> map_of m k = Some t \<Longrightarrow>
     \<exists>r. U t b = Inr r \<and> map_of (resolved_map U b m) k = Some r"
proof (induction m)
  case Nil
  then show ?case by simp
next
  case (Cons e m)
  obtain k' t' where e: "e = (k', t')" by (cases e)
  from Cons.prems(1) e obtain r' where r': "U t' b = Inr r'" and rest: "all_parse U b m"
    by (cases "U t' b") (auto simp: all_parse_def)
  show ?case
  proof (cases "k' = k")
    case True
    with Cons.prems(2) e r' show ?thesis by (simp add: resolved_map_def)
  next
    case False
    with Cons.prems(2) e have "map_of m k = Some t" by simp
    with Cons.IH rest obtain r where "U t b = Inr r" "map_of (resolved_map U b m) k = Some r"
      by blast
    with False e show ?thesis by (simp add: resolved_map_def)
  qed
qed

lemma fold_update_map_of:
  "distinct (map fst b) \<Longrightarrow>
     map_of (fold (\<lambda>(k, v). AList.update k v) b a) x = (map_of a ++ map_of b) x"
proof (induction b arbitrary: a)
  case Nil
  then show ?case by simp
next
  case (Cons e b)
  obtain k v where e: "e = (k, v)" by (cases e)
  have k: "map_of b k = None" using Cons.prems e by (simp add: map_of_eq_None_iff)
  have "map_of (fold (\<lambda>(k, v). AList.update k v) b (AList.update k v a)) x
          = (map_of (AList.update k v a) ++ map_of b) x"
    using Cons by simp
  also have "\<dots> = (map_of a ++ map_of ((k, v) # b)) x"
    using k by (cases "x = k") (simp_all add: map_add_def AList.update_conv' split: option.splits)
  finally show ?case by (simp add: e map_add_def)
qed

lemma spread2_map_of: "keys_distinct b \<Longrightarrow> map_of (spread2 a b) = map_of a ++ map_of b"
  by (rule ext) (simp add: spread2_def keys_distinct_def fold_update_map_of)

lemma wf_ImportMap_append: "wf_ImportMap \<sigma> M \<Longrightarrow> wf_ImportMap (\<sigma> @ [c]) M"
  by (auto simp: wf_ImportMap_def list_all_iff nth_append)

subsection \<open>Runs of the import-map resolver\<close>

text \<open>
  The URL rule on the targets of the examples, and on \<^verbatim>\<open>https://\<close>, a target without a
  host, which the platform rejects as the rule does.
\<close>

lemma example_URL_values:
  "example_URL ''./bar.js'' ''https://example.com/project/'' = Inr ''https://example.com/project/bar.js''"
  "example_URL ''./dep.js'' ''https://example.com/project/'' = Inr ''https://example.com/project/dep.js''"
  "example_URL ''./baz.js'' ''https://example.com/project/'' = Inr ''https://example.com/project/baz.js''"
  "example_URL ''https://cdn/x.js'' ''https://example.com/project/'' = Inr ''https://cdn/x.js''"
  "example_URL ''HTTPS://CDN/x.js'' ''https://example.com/project/'' = Inr ''https://cdn/x.js''"
  "example_URL ''https://'' ''https://example.com/project/'' = Inl TypeError"
  "example_URL ''./mod.ts'' ''https://deno.land/x/lume/'' = Inr ''https://deno.land/x/lume/mod.ts''"
  "example_URL ''./'' ''https://deno.land/x/lume/'' = Inr ''https://deno.land/x/lume/''"
  by (simp_all add: example_URL_def absolute_href_def lower_def is_letter_def is_plain_def
      adjacent_def Let_def)

lemma absolute_href_upper: "absolute_href ''HTTPS://CDN/x.js'' = Inr ''https://cdn/x.js''"
  by (simp add: absolute_href_def lower_def is_letter_def is_plain_def adjacent_def Let_def)

text \<open>
  The map of the spec's example, with a scope added, resolved against
  \<^verbatim>\<open>https://example.com/project/\<close>; a map with an absolute target in capitals; a user map
  given to \<open>getImportMap\<close> with that URL; and a user map whose second target has no host.
\<close>

lemma example_run:
  "resolveImportMap example_URL \<lparr>im_imports = 0, im_scopes = Some [(''https://example.com/vendor/'', 1)]\<rparr>
     ''https://example.com/project/''
     [[(''foo'', ''./bar.js''), (''x'', ''https://cdn/x.js'')], [(''dep'', ''./dep.js'')]]
   = (Inr (), [[(''foo'', ''https://example.com/project/bar.js''), (''x'', ''https://cdn/x.js'')],
               [(''dep'', ''https://example.com/project/dep.js'')]])"
  by (simp add: resolveImportMap_def resolveSpecifierMap_def example_URL_values)

lemma example_wf:
  "wf_ImportMap [[(''foo'', ''./bar.js''), (''x'', ''https://cdn/x.js'')], [(''dep'', ''./dep.js'')]]
     \<lparr>im_imports = 0, im_scopes = Some [(''https://example.com/vendor/'', 1)]\<rparr>"
  by (simp add: wf_ImportMap_def specifier_maps_def keys_distinct_def)

lemma example_parse:
  "\<forall>a \<in> set (specifier_maps \<lparr>im_imports = 0, im_scopes = Some [(''https://example.com/vendor/'', 1)]\<rparr>).
     all_parse example_URL ''https://example.com/project/''
       ([[(''foo'', ''./bar.js''), (''x'', ''https://cdn/x.js'')], [(''dep'', ''./dep.js'')]] ! a)"
  by (simp add: specifier_maps_def all_parse_def example_URL_values)

lemma example_upper:
  "resolveImportMap example_URL \<lparr>im_imports = 0, im_scopes = None\<rparr> ''https://example.com/project/''
     [[(''x'', ''HTTPS://CDN/x.js'')]]
   = (Inr (), [[(''x'', ''https://cdn/x.js'')]])"
  by (simp add: resolveImportMap_def resolveSpecifierMap_def example_URL_values)

lemma example_canonical:
  "canonical_imports example_URL ''https://deno.land/x/lume/''
     = Inr [(''lume'', ''https://deno.land/x/lume/mod.ts''), (''lume/'', ''https://deno.land/x/lume/''),
            (''https://deno.land/x/lume/'', ''https://deno.land/x/lume/'')]"
  by (simp add: canonical_imports_def example_URL_values)

lemma example_getImportMap:
  "getImportMap example_URL ''https://deno.land/x/lume/''
     (Some \<lparr>im_imports = 0, im_scopes = None\<rparr>) (Some ''https://example.com/project/'')
     [[(''foo'', ''./bar.js''), (''lume'', ''https://cdn/x.js'')]]
   = (Inr \<lparr>im_imports = 2, im_scopes = None\<rparr>,
      [[(''foo'', ''https://example.com/project/bar.js''), (''lume'', ''https://cdn/x.js'')],
       [(''lume'', ''https://deno.land/x/lume/mod.ts''), (''lume/'', ''https://deno.land/x/lume/''),
        (''https://deno.land/x/lume/'', ''https://deno.land/x/lume/'')],
       [(''lume'', ''https://cdn/x.js''), (''lume/'', ''https://deno.land/x/lume/''),
        (''https://deno.land/x/lume/'', ''https://deno.land/x/lume/''),
        (''foo'', ''https://example.com/project/bar.js'')]])"
  by (simp add: getImportMap_def example_canonical resolveImportMap_def resolveSpecifierMap_def
      example_URL_values spread2_def own_entries_def Let_def)

lemma example_getImportMap_wf:
  "wf_ImportMap [[(''foo'', ''./bar.js''), (''lume'', ''https://cdn/x.js'')]] \<lparr>im_imports = 0, im_scopes = None\<rparr>"
  by (simp add: wf_ImportMap_def specifier_maps_def keys_distinct_def)

lemma example_getImportMap_parse:
  "\<forall>a \<in> set (specifier_maps \<lparr>im_imports = 0, im_scopes = None\<rparr>).
     all_parse example_URL ''https://example.com/project/''
       ([[(''foo'', ''./bar.js''), (''lume'', ''https://cdn/x.js'')]] ! a)"
  by (simp add: specifier_maps_def all_parse_def example_URL_values)

lemma example_getImportMap_None:
  "getImportMap example_URL ''https://deno.land/x/lume/'' None None []
   = (Inr \<lparr>im_imports = 0, im_scopes = None\<rparr>,
      [[(''lume'', ''https://deno.land/x/lume/mod.ts''), (''lume/'', ''https://deno.land/x/lume/''),
        (''https://deno.land/x/lume/'', ''https://deno.land/x/lume/'')]])"
  by (simp add: getImportMap_def example_canonical Let_def)

lemma example_failing:
  "getImportMap example_URL ''https://deno.land/x/lume/''
     (Some \<lparr>im_imports = 0, im_scopes = Some [(''https://example.com/vendor/'', 1)]\<rparr>)
     (Some ''https://example.com/project/'')
     [[(''foo'', ''./bar.js''), (''bad'', ''https://''), (''baz'', ''./baz.js'')], [(''dep'', ''./dep.js'')]]
   = (Inl TypeError,
      [[(''foo'', ''https://example.com/project/bar.js''), (''bad'', ''https://''), (''baz'', ''./baz.js'')],
       [(''dep'', ''./dep.js'')],
       [(''lume'', ''https://deno.land/x/lume/mod.ts''), (''lume/'', ''https://deno.land/x/lume/''),
        (''https://deno.land/x/lume/'', ''https://deno.land/x/lume/'')]])"
  by (simp add: getImportMap_def example_canonical resolveImportMap_def resolveSpecifierMap_def
      example_URL_values Let_def)

lemma example_failing_wf:
  "wf_ImportMap
     [[(''foo'', ''./bar.js''), (''bad'', ''https://''), (''baz'', ''./baz.js'')], [(''dep'', ''./dep.js'')]]
     \<lparr>im_imports = 0, im_scopes = Some [(''https://example.com/vendor/'', 1)]\<rparr>"
  by (simp add: wf_ImportMap_def specifier_maps_def keys_distinct_def)

subsection \<open>Claims on the import-map resolver\<close>

text \<open>
  \<open>getImportMap\<close> on a well-formed user map, whatever it meets: the store it leaves, and
  whether it returns.
\<close>

lemma getImportMap_run:
  assumes c: "canonical_imports U base = Inr canon" and wf: "wf_ImportMap \<sigma> M"
  shows "length \<sigma> < length (snd (getImportMap U base (Some M) (Some u) \<sigma>)) \<and>
         (\<forall>a < length \<sigma>. snd (getImportMap U base (Some M) (Some u) \<sigma>) ! a =
            (if reached U u \<sigma> (specifier_maps M) a
             then resolved_upto U u (parsed U u (\<sigma> ! a)) (\<sigma> ! a) else \<sigma> ! a)) \<and>
         (isl (fst (getImportMap U base (Some M) (Some u) \<sigma>)) \<longleftrightarrow>
            \<not> list_all (\<lambda>a. all_parse U u (\<sigma> ! a)) (specifier_maps M))"
proof -
  let ?\<sigma>0 = "\<sigma> @ [canon]"
  let ?r = "resolveImportMap U M u ?\<sigma>0"
  have wf0: "wf_ImportMap ?\<sigma>0 M" using wf by (rule wf_ImportMap_append)
  have lt: "a < length \<sigma>" if "a \<in> set (specifier_maps M)" for a
    using wf that by (auto simp: wf_ImportMap_def list_all_iff)
  have same: "reached U u ?\<sigma>0 (specifier_maps M) a \<longleftrightarrow> reached U u \<sigma> (specifier_maps M) a" for a
  proof -
    have "?\<sigma>0 ! a' = \<sigma> ! a'" if "a' \<in> set (takeWhile (\<lambda>a'. a' \<noteq> a) (specifier_maps M))" for a'
      using that lt by (auto simp: nth_append dest: set_takeWhileD)
    then show ?thesis by (simp add: reached_def list_all_iff)
  qed
  have par: "list_all (\<lambda>a. all_parse U u (?\<sigma>0 ! a)) (specifier_maps M) \<longleftrightarrow>
             list_all (\<lambda>a. all_parse U u (\<sigma> ! a)) (specifier_maps M)"
    using lt by (auto simp: list_all_iff nth_append)
  note run = resolveImportMap_run [OF wf0, of U u]
  have len: "length (snd ?r) = Suc (length \<sigma>)" using run by simp
  have ok: "fst ?r = Inr () \<longleftrightarrow> list_all (\<lambda>a. all_parse U u (\<sigma> ! a)) (specifier_maps M)"
    using run unfolding par by blast
  have nth: "\<forall>a < length \<sigma>. snd ?r ! a =
            (if reached U u \<sigma> (specifier_maps M) a
             then resolved_upto U u (parsed U u (\<sigma> ! a)) (\<sigma> ! a) else \<sigma> ! a)"
  proof (intro allI impI)
    fix a assume a: "a < length \<sigma>"
    then have "a < length ?\<sigma>0" and e: "?\<sigma>0 ! a = \<sigma> ! a" by (simp_all add: nth_append)
    with run have "snd ?r ! a =
            (if reached U u ?\<sigma>0 (specifier_maps M) a
             then resolved_upto U u (parsed U u (?\<sigma>0 ! a)) (?\<sigma>0 ! a) else ?\<sigma>0 ! a)"
      by blast
    then show "snd ?r ! a =
            (if reached U u \<sigma> (specifier_maps M) a
             then resolved_upto U u (parsed U u (\<sigma> ! a)) (\<sigma> ! a) else \<sigma> ! a)"
      unfolding same e .
  qed
  obtain res \<sigma>1 where r: "?r = (res, \<sigma>1)" by (cases ?r)
  show ?thesis
  proof (cases res)
    case (Inl e)
    then have "getImportMap U base (Some M) (Some u) \<sigma> = (Inl e, \<sigma>1)"
      using c r by (simp add: getImportMap_def Let_def)
    with len nth ok r Inl show ?thesis by simp
  next
    case (Inr x)
    then have "\<exists>m x. getImportMap U base (Some M) (Some u) \<sigma> = (Inr m, \<sigma>1 @ [x])"
      using c r by (simp add: getImportMap_def Let_def)
    then obtain m x where "getImportMap U base (Some M) (Some u) \<sigma> = (Inr m, \<sigma>1 @ [x])" by blast
    with len nth ok r Inr show ?thesis by (simp add: nth_append)
  qed
qed

text \<open>
  C6, as the code has it. \<open>getImportMap\<close> given a \<open>userMap\<close> and a \<open>url\<close> rewrites the
  caller's import map in place, whether it returns or throws. \<^verbatim>\<open>resolveImportMap\<close> takes
  the specifier maps of \<open>userMap\<close> in turn, \<open>imports\<close> first and then the scopes, and in
  each the entries in turn, and throws at the first target that does not parse: after the
  call every map it got to holds, key for key, the resolved targets up to that first
  target and its former targets from there on, all of them resolved when the call returns,
  so the input equals its pre-call snapshot only where each such target is its own
  resolution. Every other object that existed before the call is unchanged, and without
  a \<open>url\<close> or without a \<open>userMap\<close> every object is. The call throws exactly when the
  canonical entries or a target of the user do not parse.
\<close>

theorem getImportMap_frame:
  assumes wf: "\<forall>M. userMap = Some M \<longrightarrow> wf_ImportMap \<sigma> M"
      and a: "a < length \<sigma>"
  shows "snd (getImportMap U base userMap url \<sigma>) ! a =
           (case (userMap, url) of
              (Some M, Some u) \<Rightarrow>
                if \<not> isl (canonical_imports U base) \<and> reached U u \<sigma> (specifier_maps M) a
                then resolved_upto U u (parsed U u (\<sigma> ! a)) (\<sigma> ! a) else \<sigma> ! a
            | _ \<Rightarrow> \<sigma> ! a) \<and>
         (\<not> isl (fst (getImportMap U base userMap url \<sigma>)) \<longrightarrow>
            (case (userMap, url) of
              (Some M, Some u) \<Rightarrow>
                snd (getImportMap U base userMap url \<sigma>) ! a =
                  (if a \<in> set (specifier_maps M) then resolved_map U u (\<sigma> ! a) else \<sigma> ! a)
            | _ \<Rightarrow> True)) \<and>
         (isl (fst (getImportMap U base userMap url \<sigma>)) \<longleftrightarrow>
            isl (canonical_imports U base) \<or>
            (case (userMap, url) of
               (Some M, Some u) \<Rightarrow> \<not> list_all (\<lambda>a. all_parse U u (\<sigma> ! a)) (specifier_maps M)
             | _ \<Rightarrow> False))"
proof (cases "canonical_imports U base")
  case (Inl e)
  then show ?thesis by (simp add: getImportMap_def split: option.splits)
next
  case (Inr canon)
  show ?thesis
  proof (cases userMap)
    case None
    with Inr a show ?thesis by (simp add: getImportMap_def Let_def nth_append)
  next
    case (Some M)
    show ?thesis
    proof (cases url)
      case None
      with Inr Some a show ?thesis by (simp add: getImportMap_def Let_def nth_append)
    next
      case u: (Some u)
      have wfM: "wf_ImportMap \<sigma> M" using wf Some by simp
      let ?g = "getImportMap U base (Some M) (Some u) \<sigma>"
      from getImportMap_run [OF Inr wfM, of u] a
      have nth: "snd ?g ! a =
            (if reached U u \<sigma> (specifier_maps M) a
             then resolved_upto U u (parsed U u (\<sigma> ! a)) (\<sigma> ! a) else \<sigma> ! a)"
        and ok: "isl (fst ?g) \<longleftrightarrow> \<not> list_all (\<lambda>a. all_parse U u (\<sigma> ! a)) (specifier_maps M)"
        by simp_all
      have ret: "snd ?g ! a = (if a \<in> set (specifier_maps M) then resolved_map U u (\<sigma> ! a) else \<sigma> ! a)"
        if "\<not> isl (fst ?g)"
      proof -
        from that ok have p: "list_all (\<lambda>a. all_parse U u (\<sigma> ! a)) (specifier_maps M)" by simp
        show ?thesis
        proof (cases "a \<in> set (specifier_maps M)")
          case True
          then have "all_parse U u (\<sigma> ! a)" using p by (simp add: list_all_iff)
          then have "parsed U u (\<sigma> ! a) = length (\<sigma> ! a)" by (simp add: parsed_all)
          with nth True p show ?thesis by (simp add: reached_all resolved_upto_all)
        next
          case False
          with nth p show ?thesis by (simp add: reached_all)
        qed
      qed
      show ?thesis using nth ok ret Inr Some u by simp
    qed
  qed
qed

theorem getImportMap_frame_witness:
  "getImportMap example_URL ''https://deno.land/x/lume/''
     (Some \<lparr>im_imports = 0, im_scopes = Some [(''https://example.com/vendor/'', 1)]\<rparr>)
     (Some ''https://example.com/project/'')
     [[(''foo'', ''./bar.js''), (''bad'', ''https://''), (''baz'', ''./baz.js'')], [(''dep'', ''./dep.js'')]]
   = (Inl TypeError,
      [[(''foo'', ''https://example.com/project/bar.js''), (''bad'', ''https://''), (''baz'', ''./baz.js'')],
       [(''dep'', ''./dep.js'')],
       [(''lume'', ''https://deno.land/x/lume/mod.ts''), (''lume/'', ''https://deno.land/x/lume/''),
        (''https://deno.land/x/lume/'', ''https://deno.land/x/lume/'')]]) \<and>
   resolved_upto example_URL ''https://example.com/project/'' 1
     [(''foo'', ''./bar.js''), (''bad'', ''https://''), (''baz'', ''./baz.js'')]
   = [(''foo'', ''https://example.com/project/bar.js''), (''bad'', ''https://''), (''baz'', ''./baz.js'')] \<and>
   \<not> reached example_URL ''https://example.com/project/''
     [[(''foo'', ''./bar.js''), (''bad'', ''https://''), (''baz'', ''./baz.js'')], [(''dep'', ''./dep.js'')]]
     [0, 1] 1 \<and>
   snd (getImportMap example_URL ''https://deno.land/x/lume/''
     (Some \<lparr>im_imports = 0, im_scopes = None\<rparr>) (Some ''https://example.com/project/'')
     [[(''foo'', ''./bar.js''), (''lume'', ''https://cdn/x.js'')]]) ! 0
   = resolved_map example_URL ''https://example.com/project/''
       [(''foo'', ''./bar.js''), (''lume'', ''https://cdn/x.js'')]"
proof -
  let ?M = "\<lparr>im_imports = 0, im_scopes = Some [(''https://example.com/vendor/'', 1)]\<rparr>"
  let ?s = "[[(''foo'', ''./bar.js''), (''bad'', ''https://''), (''baz'', ''./baz.js'')], [(''dep'', ''./dep.js'')]]"
  let ?N = "\<lparr>im_imports = 0, im_scopes = None\<rparr>"
  let ?t = "[[(''foo'', ''./bar.js''), (''lume'', ''https://cdn/x.js'')]]"
  have wf: "\<forall>M. Some ?M = Some M \<longrightarrow> wf_ImportMap ?s M" using example_failing_wf by simp
  have wf': "\<forall>M. Some ?N = Some M \<longrightarrow> wf_ImportMap ?t M" using example_getImportMap_wf by simp
  have u: "resolved_upto example_URL ''https://example.com/project/'' 1
             [(''foo'', ''./bar.js''), (''bad'', ''https://''), (''baz'', ''./baz.js'')]
           = [(''foo'', ''https://example.com/project/bar.js''), (''bad'', ''https://''), (''baz'', ''./baz.js'')]"
    by (simp add: resolved_upto_def resolved_map_def example_URL_values)
  have r: "\<not> reached example_URL ''https://example.com/project/'' ?s [0, 1] 1"
    by (simp add: reached_def all_parse_def example_URL_values)
  have ok: "\<not> isl (fst (getImportMap example_URL ''https://deno.land/x/lume/'' (Some ?N)
              (Some ''https://example.com/project/'') ?t))"
    by (simp add: example_getImportMap)
  from getImportMap_frame [OF wf', of 0 example_URL "''https://deno.land/x/lume/''"
         "Some ''https://example.com/project/''", THEN conjunct2, THEN conjunct1] ok
  have "snd (getImportMap example_URL ''https://deno.land/x/lume/'' (Some ?N)
              (Some ''https://example.com/project/'') ?t) ! 0
        = resolved_map example_URL ''https://example.com/project/''
            [(''foo'', ''./bar.js''), (''lume'', ''https://cdn/x.js'')]"
    by (simp add: specifier_maps_def)
  with example_failing u r show ?thesis by simp
qed

text \<open>
  C6 as stated fails: after \<open>getImportMap(userMap, url)\<close> on an import map whose \<open>imports\<close>
  (the object at address 0) maps \<open>foo\<close> to \<^verbatim>\<open>./bar.js\<close>, that same object maps \<open>foo\<close> to
  \<^verbatim>\<open>https://example.com/project/bar.js\<close>; and so it does after a call that throws at a
  later target.
\<close>

theorem getImportMap_rewrites_userMap:
  "snd (getImportMap example_URL ''https://deno.land/x/lume/''
        (Some \<lparr>im_imports = 0, im_scopes = None\<rparr>) (Some ''https://example.com/project/'')
        [[(''foo'', ''./bar.js''), (''lume'', ''https://cdn/x.js'')]]) ! 0
   = [(''foo'', ''https://example.com/project/bar.js''), (''lume'', ''https://cdn/x.js'')] \<and>
   [(''foo'', ''https://example.com/project/bar.js''), (''lume'', ''https://cdn/x.js'')]
     \<noteq> [[(''foo'', ''./bar.js''), (''lume'', ''https://cdn/x.js'')]] ! 0 \<and>
   getImportMap example_URL ''https://deno.land/x/lume/''
     (Some \<lparr>im_imports = 0, im_scopes = None\<rparr>) (Some ''https://example.com/project/'')
     [[(''foo'', ''./bar.js''), (''bad'', ''https://'')]]
   = (Inl TypeError,
      [[(''foo'', ''https://example.com/project/bar.js''), (''bad'', ''https://'')],
       [(''lume'', ''https://deno.land/x/lume/mod.ts''), (''lume/'', ''https://deno.land/x/lume/''),
        (''https://deno.land/x/lume/'', ''https://deno.land/x/lume/'')]])"
  by (simp add: example_getImportMap)
    (simp add: getImportMap_def example_canonical resolveImportMap_def resolveSpecifierMap_def
      example_URL_values Let_def)

text \<open>
  C8, as the code has it. For every well-formed import map all of whose targets parse
  against the base URL, \<open>resolveImportMap\<close> returns, and afterwards each specifier map of
  the import map (\<open>imports\<close> and every scope) has the keys it had, in the same order, and
  at each key the URL that \<^verbatim>\<open>new URL(target, baseUrl).href\<close> makes of the former target.
  When some target does not parse, the call throws. Nothing is said of a target being
  unchanged: that is for the URL rule to say.
\<close>

theorem resolveImportMap_rewrites_targets:
  assumes wf: "wf_ImportMap \<sigma> M"
  shows "((\<forall>a \<in> set (specifier_maps M). all_parse U b (\<sigma> ! a)) \<longrightarrow>
            (\<exists>\<sigma>'. resolveImportMap U M b \<sigma> = (Inr (), \<sigma>') \<and>
               (\<forall>a \<in> set (specifier_maps M).
                  map fst (\<sigma>' ! a) = map fst (\<sigma> ! a) \<and>
                  (\<forall>k t. map_of (\<sigma> ! a) k = Some t \<longrightarrow>
                     (\<exists>r. U t b = Inr r \<and> map_of (\<sigma>' ! a) k = Some r))))) \<and>
         (\<not> (\<forall>a \<in> set (specifier_maps M). all_parse U b (\<sigma> ! a)) \<longrightarrow>
            isl (fst (resolveImportMap U M b \<sigma>)))"
proof (intro conjI impI)
  assume parse: "\<forall>a \<in> set (specifier_maps M). all_parse U b (\<sigma> ! a)"
  then have p: "list_all (\<lambda>a. all_parse U b (\<sigma> ! a)) (specifier_maps M)"
    by (simp add: list_all_iff)
  from resolveImportMap_ok [OF wf p] obtain \<sigma>' where
    r: "resolveImportMap U M b \<sigma> = (Inr (), \<sigma>')" and
    nth: "\<forall>a < length \<sigma>. \<sigma>' ! a = (if a \<in> set (specifier_maps M) then resolved_map U b (\<sigma> ! a) else \<sigma> ! a)"
    by blast
  have "map fst (\<sigma>' ! a) = map fst (\<sigma> ! a) \<and>
        (\<forall>k t. map_of (\<sigma> ! a) k = Some t \<longrightarrow> (\<exists>r. U t b = Inr r \<and> map_of (\<sigma>' ! a) k = Some r))"
    if a: "a \<in> set (specifier_maps M)" for a
  proof -
    have "a < length \<sigma>" using wf a by (simp add: wf_ImportMap_def list_all_iff)
    with nth a have eq: "\<sigma>' ! a = resolved_map U b (\<sigma> ! a)" by simp
    have pa: "all_parse U b (\<sigma> ! a)" using parse a by blast
    show ?thesis unfolding eq using resolved_map_target [OF pa] by (simp add: resolved_map_keys)
  qed
  with r show "\<exists>\<sigma>'. resolveImportMap U M b \<sigma> = (Inr (), \<sigma>') \<and>
               (\<forall>a \<in> set (specifier_maps M).
                  map fst (\<sigma>' ! a) = map fst (\<sigma> ! a) \<and>
                  (\<forall>k t. map_of (\<sigma> ! a) k = Some t \<longrightarrow>
                     (\<exists>r. U t b = Inr r \<and> map_of (\<sigma>' ! a) k = Some r)))"
    by blast
next
  assume "\<not> (\<forall>a \<in> set (specifier_maps M). all_parse U b (\<sigma> ! a))"
  then have "\<not> list_all (\<lambda>a. all_parse U b (\<sigma> ! a)) (specifier_maps M)"
    by (simp add: list_all_iff)
  with resolveImportMap_run [OF wf, of U b] have "fst (resolveImportMap U M b \<sigma>) \<noteq> Inr ()"
    by simp
  then show "isl (fst (resolveImportMap U M b \<sigma>))"
    by (cases "fst (resolveImportMap U M b \<sigma>)") simp_all
qed

theorem resolveImportMap_rewrites_targets_witness:
  "resolveImportMap example_URL \<lparr>im_imports = 0, im_scopes = Some [(''https://example.com/vendor/'', 1)]\<rparr>
     ''https://example.com/project/''
     [[(''foo'', ''./bar.js''), (''x'', ''https://cdn/x.js'')], [(''dep'', ''./dep.js'')]]
   = (Inr (), [[(''foo'', ''https://example.com/project/bar.js''), (''x'', ''https://cdn/x.js'')],
               [(''dep'', ''https://example.com/project/dep.js'')]]) \<and>
   example_URL ''./bar.js'' ''https://example.com/project/'' = Inr ''https://example.com/project/bar.js'' \<and>
   example_URL ''https://cdn/x.js'' ''https://example.com/project/'' = Inr ''https://cdn/x.js'' \<and>
   \<not> all_parse example_URL ''https://example.com/project/'' [(''bad'', ''https://'')] \<and>
   isl (fst (resolveImportMap example_URL \<lparr>im_imports = 0, im_scopes = None\<rparr>
               ''https://example.com/project/'' [[(''bad'', ''https://'')]]))"
proof -
  have wf: "wf_ImportMap [[(''bad'', ''https://'')]] \<lparr>im_imports = 0, im_scopes = None\<rparr>"
    by (simp add: wf_ImportMap_def specifier_maps_def keys_distinct_def)
  have np: "\<not> all_parse example_URL ''https://example.com/project/'' [(''bad'', ''https://'')]"
    by (simp add: all_parse_def example_URL_values)
  then have "\<not> (\<forall>a \<in> set (specifier_maps \<lparr>im_imports = 0, im_scopes = None\<rparr>).
            all_parse example_URL ''https://example.com/project/'' ([[(''bad'', ''https://'')]] ! a))"
    by (simp add: specifier_maps_def)
  with resolveImportMap_rewrites_targets [OF wf, of example_URL "''https://example.com/project/''"]
  have "isl (fst (resolveImportMap example_URL \<lparr>im_imports = 0, im_scopes = None\<rparr>
               ''https://example.com/project/'' [[(''bad'', ''https://'')]]))"
    by blast
  moreover from resolveImportMap_rewrites_targets [OF example_wf, of example_URL "''https://example.com/project/''"]
    example_parse
  have "\<exists>\<sigma>'. resolveImportMap example_URL \<lparr>im_imports = 0, im_scopes = Some [(''https://example.com/vendor/'', 1)]\<rparr>
     ''https://example.com/project/''
     [[(''foo'', ''./bar.js''), (''x'', ''https://cdn/x.js'')], [(''dep'', ''./dep.js'')]] = (Inr (), \<sigma>')"
    by blast
  ultimately show ?thesis using example_run np by (simp add: example_URL_values)
qed

text \<open>
  C8 as stated fails on an absolute target that is not in serialised form: the URL parser
  lowers the case of the scheme and of the host, so the target \<^verbatim>\<open>HTTPS://CDN/x.js\<close>, an
  absolute URL on its own, is \<^verbatim>\<open>https://cdn/x.js\<close> after the call.
\<close>

theorem resolveImportMap_rewrites_absolute_target:
  "absolute_href ''HTTPS://CDN/x.js'' = Inr ''https://cdn/x.js'' \<and>
   resolveImportMap example_URL \<lparr>im_imports = 0, im_scopes = None\<rparr> ''https://example.com/project/''
     [[(''x'', ''HTTPS://CDN/x.js'')]]
   = (Inr (), [[(''x'', ''https://cdn/x.js'')]]) \<and>
   ''https://cdn/x.js'' \<noteq> ''HTTPS://CDN/x.js''"
  by (simp add: absolute_href_upper example_upper)

text \<open>
  C9. Without a \<open>userMap\<close> \<open>getImportMap\<close> returns a map whose \<open>imports\<close> are exactly the
  three entries \<open>lume\<close>, \<open>lume/\<close> and \<^verbatim>\<open>https://deno.land/x/lume/\<close>, resolved against the
  module's own base URL, and which has no scopes. With a well-formed \<open>userMap\<close>, and
  provided its targets parse against \<open>url\<close> when one is given, \<open>getImportMap\<close> returns a
  map whose \<open>imports\<close> is a new object holding the canonical entries overlaid with
  \<open>userMap.imports\<close> as it is after the call (resolved against \<open>url\<close> when one is given),
  the user's entry winning where a key is in both, and whose \<open>scopes\<close> are the user's.
  The call with a \<open>userMap\<close> throws exactly when a \<open>url\<close> is given and some target does
  not parse against it.
\<close>

theorem getImportMap_result:
  assumes c: "U ''./mod.ts'' base = Inr r1" "U ''./'' base = Inr r2"
  shows "getImportMap U base None url \<sigma> =
           (Inr \<lparr>im_imports = length \<sigma>, im_scopes = None\<rparr>,
            \<sigma> @ [[(''lume'', r1), (''lume/'', r2), (''https://deno.land/x/lume/'', r2)]]) \<and>
         (wf_ImportMap \<sigma> M \<and>
          (\<forall>u. url = Some u \<longrightarrow> (\<forall>a \<in> set (specifier_maps M). all_parse U u (\<sigma> ! a))) \<longrightarrow>
            (\<exists>m \<sigma>'. getImportMap U base (Some M) url \<sigma> = (Inr m, \<sigma>') \<and>
               length \<sigma> < im_imports m \<and> im_imports m < length \<sigma>' \<and>
               map_of (\<sigma>' ! im_imports m) =
                 map_of [(''lume'', r1), (''lume/'', r2), (''https://deno.land/x/lume/'', r2)] ++
                 map_of (\<sigma>' ! im_imports M) \<and>
               \<sigma>' ! im_imports M =
                 (case url of None \<Rightarrow> \<sigma> ! im_imports M
                  | Some u \<Rightarrow> resolved_map U u (\<sigma> ! im_imports M)) \<and>
               im_scopes m = im_scopes M)) \<and>
         (wf_ImportMap \<sigma> M \<longrightarrow>
            (isl (fst (getImportMap U base (Some M) url \<sigma>)) \<longleftrightarrow>
               (\<exists>u. url = Some u \<and> \<not> (\<forall>a \<in> set (specifier_maps M). all_parse U u (\<sigma> ! a)))))"
proof (intro conjI impI)
  let ?canon = "[(''lume'', r1), (''lume/'', r2), (''https://deno.land/x/lume/'', r2)]"
  have canon: "canonical_imports U base = Inr ?canon" using c by (simp add: canonical_imports_def)
  show "getImportMap U base None url \<sigma> =
           (Inr \<lparr>im_imports = length \<sigma>, im_scopes = None\<rparr>, \<sigma> @ [?canon])"
    using canon by (simp add: getImportMap_def Let_def)
  assume "wf_ImportMap \<sigma> M \<and>
          (\<forall>u. url = Some u \<longrightarrow> (\<forall>a \<in> set (specifier_maps M). all_parse U u (\<sigma> ! a)))"
  then have wf: "wf_ImportMap \<sigma> M"
    and parse: "\<And>u. url = Some u \<Longrightarrow> \<forall>a \<in> set (specifier_maps M). all_parse U u (\<sigma> ! a)"
    by simp_all
  have im: "im_imports M \<in> set (specifier_maps M)" by (simp add: specifier_maps_def)
  have lt: "im_imports M < length \<sigma>" and kd: "keys_distinct (\<sigma> ! im_imports M)"
    using wf im by (auto simp: wf_ImportMap_def list_all_iff)
  let ?um = "case url of None \<Rightarrow> \<sigma> ! im_imports M | Some u \<Rightarrow> resolved_map U u (\<sigma> ! im_imports M)"
  show "\<exists>m \<sigma>'. getImportMap U base (Some M) url \<sigma> = (Inr m, \<sigma>') \<and>
               length \<sigma> < im_imports m \<and> im_imports m < length \<sigma>' \<and>
               map_of (\<sigma>' ! im_imports m) = map_of ?canon ++ map_of (\<sigma>' ! im_imports M) \<and>
               \<sigma>' ! im_imports M = ?um \<and> im_scopes m = im_scopes M"
  proof (cases url)
    case None
    let ?m = "\<lparr>im_imports = Suc (length \<sigma>), im_scopes = im_scopes M\<rparr>"
    let ?\<sigma>' = "(\<sigma> @ [?canon]) @ [spread2 ?canon (\<sigma> ! im_imports M)]"
    have g: "getImportMap U base (Some M) url \<sigma> = (Inr ?m, ?\<sigma>')"
      using canon None lt by (simp add: getImportMap_def Let_def own_entries_def nth_append)
    have "map_of (?\<sigma>' ! im_imports ?m) = map_of ?canon ++ map_of (\<sigma> ! im_imports M)"
      using kd by (simp add: nth_append spread2_map_of)
    moreover have "?\<sigma>' ! im_imports M = \<sigma> ! im_imports M" using lt by (simp add: nth_append)
    ultimately show ?thesis using g None by (intro exI [of _ ?m] exI [of _ ?\<sigma>']) simp
  next
    case (Some u)
    let ?\<sigma>0 = "\<sigma> @ [?canon]"
    have wf0: "wf_ImportMap ?\<sigma>0 M" using wf by (rule wf_ImportMap_append)
    have mem: "a < length \<sigma>" if "a \<in> set (specifier_maps M)" for a
      using wf that by (auto simp: wf_ImportMap_def list_all_iff)
    have p0: "list_all (\<lambda>a. all_parse U u (?\<sigma>0 ! a)) (specifier_maps M)"
      using parse [OF Some] mem by (auto simp: list_all_iff nth_append)
    from resolveImportMap_ok [OF wf0 p0] obtain \<sigma>1 where
      r: "resolveImportMap U M u ?\<sigma>0 = (Inr (), \<sigma>1)" and len: "length \<sigma>1 = Suc (length \<sigma>)"
      and nth: "\<forall>a < Suc (length \<sigma>). \<sigma>1 ! a =
                  (if a \<in> set (specifier_maps M) then resolved_map U u (?\<sigma>0 ! a) else ?\<sigma>0 ! a)"
      by auto
    have notin: "length \<sigma> \<notin> set (specifier_maps M)" using mem by blast
    have canon1: "\<sigma>1 ! length \<sigma> = ?canon" using nth notin by simp
    have um1: "\<sigma>1 ! im_imports M = resolved_map U u (\<sigma> ! im_imports M)"
      using nth lt im by (simp add: nth_append)
    have kd1: "keys_distinct (resolved_map U u (\<sigma> ! im_imports M))"
      using kd by (simp add: keys_distinct_def resolved_map_keys)
    let ?m = "\<lparr>im_imports = length \<sigma>1, im_scopes = im_scopes M\<rparr>"
    let ?\<sigma>' = "\<sigma>1 @ [spread2 ?canon (resolved_map U u (\<sigma> ! im_imports M))]"
    have g: "getImportMap U base (Some M) url \<sigma> = (Inr ?m, ?\<sigma>')"
      using canon Some r lt len canon1 um1 by (simp add: getImportMap_def Let_def own_entries_def)
    have "map_of (?\<sigma>' ! im_imports ?m) = map_of ?canon ++ map_of (resolved_map U u (\<sigma> ! im_imports M))"
      using kd1 by (simp add: spread2_map_of)
    moreover have "?\<sigma>' ! im_imports M = resolved_map U u (\<sigma> ! im_imports M)"
      using lt len um1 by (simp add: nth_append)
    ultimately show ?thesis using g Some len by (intro exI [of _ ?m] exI [of _ ?\<sigma>']) simp
  qed
next
  let ?canon = "[(''lume'', r1), (''lume/'', r2), (''https://deno.land/x/lume/'', r2)]"
  have canon: "canonical_imports U base = Inr ?canon" using c by (simp add: canonical_imports_def)
  assume wf: "wf_ImportMap \<sigma> M"
  show "isl (fst (getImportMap U base (Some M) url \<sigma>)) \<longleftrightarrow>
          (\<exists>u. url = Some u \<and> \<not> (\<forall>a \<in> set (specifier_maps M). all_parse U u (\<sigma> ! a)))"
  proof (cases url)
    case None
    then show ?thesis using canon by (simp add: getImportMap_def Let_def)
  next
    case (Some u)
    from getImportMap_run [OF canon wf, of u] Some show ?thesis by (simp add: list_all_iff)
  qed
qed

theorem getImportMap_result_witness:
  "getImportMap example_URL ''https://deno.land/x/lume/'' None None []
   = (Inr \<lparr>im_imports = 0, im_scopes = None\<rparr>,
      [[(''lume'', ''https://deno.land/x/lume/mod.ts''), (''lume/'', ''https://deno.land/x/lume/''),
        (''https://deno.land/x/lume/'', ''https://deno.land/x/lume/'')]]) \<and>
   wf_ImportMap [[(''foo'', ''./bar.js''), (''lume'', ''https://cdn/x.js'')]] \<lparr>im_imports = 0, im_scopes = None\<rparr> \<and>
   getImportMap example_URL ''https://deno.land/x/lume/''
     (Some \<lparr>im_imports = 0, im_scopes = None\<rparr>) (Some ''https://example.com/project/'')
     [[(''foo'', ''./bar.js''), (''lume'', ''https://cdn/x.js'')]]
   = (Inr \<lparr>im_imports = 2, im_scopes = None\<rparr>,
      [[(''foo'', ''https://example.com/project/bar.js''), (''lume'', ''https://cdn/x.js'')],
       [(''lume'', ''https://deno.land/x/lume/mod.ts''), (''lume/'', ''https://deno.land/x/lume/''),
        (''https://deno.land/x/lume/'', ''https://deno.land/x/lume/'')],
       [(''lume'', ''https://cdn/x.js''), (''lume/'', ''https://deno.land/x/lume/''),
        (''https://deno.land/x/lume/'', ''https://deno.land/x/lume/''),
        (''foo'', ''https://example.com/project/bar.js'')]]) \<and>
   (map_of [(''lume'', ''https://deno.land/x/lume/mod.ts''), (''lume/'', ''https://deno.land/x/lume/''),
            (''https://deno.land/x/lume/'', ''https://deno.land/x/lume/'')]
      ++ map_of [(''foo'', ''https://example.com/project/bar.js''), (''lume'', ''https://cdn/x.js'')])
     ''lume'' = Some ''https://cdn/x.js''"
proof -
  have p: "\<forall>u. Some ''https://example.com/project/'' = Some u \<longrightarrow>
             (\<forall>a \<in> set (specifier_maps \<lparr>im_imports = 0, im_scopes = None\<rparr>).
                all_parse example_URL u ([[(''foo'', ''./bar.js''), (''lume'', ''https://cdn/x.js'')]] ! a))"
    using example_getImportMap_parse by simp
  from getImportMap_result [where U = example_URL and base = "''https://deno.land/x/lume/''"
         and ?r1.0 = "''https://deno.land/x/lume/mod.ts''" and ?r2.0 = "''https://deno.land/x/lume/''"
         and \<sigma> = "[[(''foo'', ''./bar.js''), (''lume'', ''https://cdn/x.js'')]]"
         and M = "\<lparr>im_imports = 0, im_scopes = None\<rparr>"
         and url = "Some ''https://example.com/project/''"]
       example_URL_values(7,8) example_getImportMap_wf p
  have "\<exists>m \<sigma>'. getImportMap example_URL ''https://deno.land/x/lume/''
     (Some \<lparr>im_imports = 0, im_scopes = None\<rparr>) (Some ''https://example.com/project/'')
     [[(''foo'', ''./bar.js''), (''lume'', ''https://cdn/x.js'')]] = (Inr m, \<sigma>')"
    by blast
  with example_getImportMap example_getImportMap_None example_getImportMap_wf
  show ?thesis by simp
qed

section \<open>Properties of the bounded-concurrency runner\<close>

subsection \<open>The invariant is kept by every job\<close>

lemma take_drop_first:
  "x \<in> set xs \<Longrightarrow>
     take (length (takeWhile (\<lambda>y. y \<noteq> x) xs)) xs @
     drop (Suc (length (takeWhile (\<lambda>y. y \<noteq> x) xs))) xs = remove1 x xs"
  by (induction xs) auto

lemma splice1_nat: "k \<le> length xs \<Longrightarrow> splice1 xs (int k) = take k xs @ drop (Suc k) xs"
  by (simp add: splice1_def min_def)

lemma splice1_indexOf: "x \<in> set xs \<Longrightarrow> splice1 xs (indexOf xs x) = remove1 x xs"
  by (simp add: indexOf_def splice1_nat length_takeWhile_le take_drop_first)

lemma inv_pc_Racing:
  "pc s = Racing snap winner \<Longrightarrow>
     inv_pc L s \<longleftrightarrow>
       int (length (executing s)) \<le> max L 1 \<and> distinct snap \<and> set (executing s) \<subseteq> set snap \<and>
       int (length snap) \<le> max L 1 \<and>
       (\<forall>i. winner = Some i \<longrightarrow> i \<in> set snap \<and> i < length (handle s) \<and> handle s ! i \<noteq> Pending)"
  by (cases winner) (simp_all add: inv_pc_def)

lemma inv_entered: "run_inv L items (entered items)"
  by (simp add: run_inv_def inv_log_def inv_exec_def inv_pc_def entered_def max_def)

lemma step_Next_cases:
  assumes "step L s Next = Some s'"
  obtains (exhausted) "pc s = Pulling" "source s = []" "s' = s\<lparr>pc := Joining (executing s)\<rparr>"
  | (item) x rest where "pc s = Pulling" "source s = x # rest"
      "s' = s\<lparr>source := rest, invoked := invoked s @ [x], worker := worker s @ [Pending],
              handle := handle s @ [Pending], executing := executing s @ [length (invoked s)],
              pc := (if int (length (executing s @ [length (invoked s)])) \<ge> L
                     then Racing (executing s @ [length (invoked s)])
                            (first_settled (handle s @ [Pending]) (executing s @ [length (invoked s)]))
                     else Pulling)\<rparr>"
  using assms by (cases "source s") (auto simp: Let_def split: if_splits)

lemma first_settled_Some:
  "first_settled hs snap = Some i \<Longrightarrow> i \<in> set snap \<and> hs ! i \<noteq> Pending"
  by (auto simp: first_settled_def find_Some_iff)

lemma first_settled_None:
  "first_settled hs snap = None \<longleftrightarrow> list_all (\<lambda>i. hs ! i = Pending) snap"
  by (auto simp: first_settled_def find_None_iff list_all_iff)

lemma inv_log_Next: "inv_log items s \<Longrightarrow> step L s Next = Some s' \<Longrightarrow> inv_log items s'"
  by (erule step_Next_cases) (simp_all add: inv_log_def)

lemma inv_exec_Next:
  assumes "inv_log items s" "inv_exec s" "step L s Next = Some s'"
  shows "inv_exec s'"
  using assms(3)
proof (cases rule: step_Next_cases)
  case exhausted
  with assms(2) show ?thesis by (simp add: inv_exec_def)
next
  case (item x rest)
  let ?n = "length (handle s)"
  have n: "length (invoked s) = ?n" "length (worker s) = ?n" using assms(1) by (simp_all add: inv_log_def)
  have d: "distinct (executing s)" and
       e: "set (executing s) = {i. i < ?n \<and> handle s ! i \<noteq> Fulfilled}" and
       a: "\<forall>i < ?n. handle s ! i = Pending \<or> handle s ! i = worker s ! i"
    using assms(2) by (simp_all add: inv_exec_def)
  have ex: "executing s' = executing s @ [?n]" and h: "handle s' = handle s @ [Pending]"
    and w: "worker s' = worker s @ [Pending]"
    using item(3) n by simp_all
  have 1: "distinct (executing s')" unfolding ex using d e by auto
  have 2: "set (executing s') = {i. i < length (handle s') \<and> handle s' ! i \<noteq> Fulfilled}"
    unfolding ex h by (auto simp: e nth_append less_Suc_eq)
  have 3: "\<forall>i < length (handle s'). handle s' ! i = Pending \<or> handle s' ! i = worker s' ! i"
    unfolding h w using a n by (auto simp: nth_append less_Suc_eq)
  show ?thesis unfolding inv_exec_def using 1 2 3 by blast
qed


lemma inv_pc_Next:
  assumes "inv_log items s" "inv_exec s" "inv_pc L s" "step L s Next = Some s'"
  shows "inv_pc L s'"
  using assms(4)
proof (cases rule: step_Next_cases)
  case exhausted
  with assms(3) show ?thesis by (simp add: inv_pc_def)
next
  case (item x rest)
  have b: "int (length (executing s)) < max L 1" using assms(3) item(1) by (simp add: inv_pc_def)
  have n: "length (invoked s) = length (handle s)" using assms(1) by (simp add: inv_log_def)
  have d: "distinct (executing s)" and
       e: "length (invoked s) \<notin> set (executing s)" and
       lt: "\<forall>i \<in> set (executing s). i < length (handle s)"
    using assms(2) n by (simp_all add: inv_exec_def)
  let ?ex = "executing s @ [length (invoked s)]"
  let ?hs = "handle s @ [Pending]"
  have w: "i \<in> set ?ex \<and> i < length ?hs \<and> ?hs ! i \<noteq> Pending"
    if "first_settled ?hs ?ex = Some i" for i
  proof -
    from first_settled_Some [OF that] have "i \<in> set ?ex" "?hs ! i \<noteq> Pending" by simp_all
    moreover from this(1) lt n have "i < length ?hs" by auto
    ultimately show ?thesis by simp
  qed
  show ?thesis
  proof (cases "int (length (executing s @ [length (invoked s)])) \<ge> L")
    case True
    have "pc s' = Racing ?ex (first_settled ?hs ?ex)" using item True by simp
    from inv_pc_Racing [OF this] show ?thesis using item b d e w by simp
  next
    case False
    then show ?thesis using item b by (simp add: inv_pc_def)
  qed
qed

lemma inv_Next: "run_inv L items s \<Longrightarrow> step L s Next = Some s' \<Longrightarrow> run_inv L items s'"
  unfolding run_inv_def using inv_log_Next inv_exec_Next inv_pc_Next by blast

lemma inv_Settle:
  assumes "run_inv L items s" "step L s (Settle i ok) = Some s'"
  shows "run_inv L items s'"
proof -
  from assms(2) have i: "i < length (worker s)" "worker s ! i = Pending"
    and s': "s' = s\<lparr>worker := (worker s)[i := (if ok then Fulfilled else Rejected)]\<rparr>"
    by (auto split: if_splits)
  have lg: "inv_log items s" and ex: "inv_exec s" and p: "inv_pc L s"
    using assms(1) by (simp_all add: run_inv_def)
  have hp: "handle s ! i = Pending"
    using ex lg i by (auto simp: inv_exec_def inv_log_def)
  have 1: "inv_log items s'" using lg s' by (simp add: inv_log_def)
  have len: "length (worker s) = length (handle s)" using lg by (simp add: inv_log_def)
  have 2: "inv_exec s'"
    unfolding inv_exec_def s' using ex hp i len by (auto simp: inv_exec_def nth_list_update)
  have 3: "inv_pc L s'"
  proof (cases "pc s")
    case (Racing snap winner)
    then have "pc s' = Racing snap winner" using s' by simp
    from inv_pc_Racing [OF this] inv_pc_Racing [OF Racing] p s' show ?thesis by simp
  qed (use p s' in \<open>simp_all add: inv_pc_def\<close>)
  show ?thesis using 1 2 3 by (simp add: run_inv_def)
qed

lemma settled_cases:
  obtains (decided) snap where "p = Racing snap None" "i \<in> set snap" "settled p i = Racing snap (Some i)"
  | (same) "settled p i = p"
proof (cases p)
  case (Racing snap winner)
  then show ?thesis using that by (cases winner; cases "i \<in> set snap") simp_all
qed (use that in simp_all)

lemma step_Reaction_cases:
  assumes "step L s (Reaction i) = Some s'"
  obtains (fulfilled) "i < length (worker s)" "i < length (handle s)" "handle s ! i = Pending"
      "worker s ! i = Fulfilled"
      "s' = s\<lparr>executing := splice1 (executing s) (indexOf (executing s) i),
              handle := (handle s)[i := Fulfilled], pc := settled (pc s) i\<rparr>"
  | (rejected) "i < length (worker s)" "i < length (handle s)" "handle s ! i = Pending"
      "worker s ! i = Rejected"
      "s' = s\<lparr>handle := (handle s)[i := Rejected], pc := settled (pc s) i\<rparr>"
  using assms by (cases "worker s ! i") (auto split: if_splits)

text \<open>
  A handle settles: the part of the invariant on where the body is, for any way the array
  shrinks or stays.
\<close>

lemma inv_pc_settled:
  assumes p: "inv_pc L s" and i: "i < length (handle s)" "handle s ! i = Pending" "x \<noteq> Pending"
    and ex: "set ex \<subseteq> set (executing s)" "length ex \<le> length (executing s)"
    and src: "source s' = source s" and s': "executing s' = ex" "handle s' = (handle s)[i := x]"
      "pc s' = settled (pc s) i"
  shows "inv_pc L s'"
proof (cases "pc s")
  case Pulling
  with p ex s' show ?thesis by (simp add: inv_pc_def)
next
  case (Racing snap winner)
  from p have sn: "distinct snap" "set (executing s) \<subseteq> set snap" "int (length snap) \<le> max L 1"
    and b: "int (length (executing s)) \<le> max L 1"
    and w: "\<And>j. winner = Some j \<Longrightarrow> j \<in> set snap \<and> j < length (handle s) \<and> handle s ! j \<noteq> Pending"
    by (simp_all add: inv_pc_Racing [OF Racing])
  obtain winner' where q: "settled (pc s) i = Racing snap winner'"
    and c: "winner' = winner \<or> (winner = None \<and> winner' = Some i \<and> i \<in> set snap)"
    using Racing by (cases winner; cases "i \<in> set snap") simp_all
  have w': "j \<in> set snap \<and> j < length (handle s') \<and> handle s' ! j \<noteq> Pending"
    if "winner' = Some j" for j
  proof (cases "j = i")
    case True
    with that c w i show ?thesis using s' by auto
  next
    case False
    with that c w show ?thesis using s' by auto
  qed
  have "pc s' = Racing snap winner'" using s' q by simp
  from inv_pc_Racing [OF this] show ?thesis using sn b ex s' w' by auto
next
  case (Joining snap)
  with p ex s' src show ?thesis by (auto simp: inv_pc_def)
next
  case Returned
  with p ex s' src show ?thesis by (auto simp: inv_pc_def)
next
  case Thrown
  with p ex s' show ?thesis by (simp add: inv_pc_def)
qed

lemma inv_Reaction:
  assumes "run_inv L items s" "step L s (Reaction i) = Some s'"
  shows "run_inv L items s'"
proof -
  have lg: "inv_log items s" and ex: "inv_exec s" and p: "inv_pc L s"
    using assms(1) by (simp_all add: run_inv_def)
  have d: "distinct (executing s)" and
       e: "set (executing s) = {i. i < length (handle s) \<and> handle s ! i \<noteq> Fulfilled}" and
       a: "\<forall>i < length (handle s). handle s ! i = Pending \<or> handle s ! i = worker s ! i"
    using ex by (simp_all add: inv_exec_def)
  from assms(2) show ?thesis
  proof (cases rule: step_Reaction_cases)
    case fulfilled
    have mem: "i \<in> set (executing s)" by (simp add: e fulfilled)
    have s': "s' = s\<lparr>executing := remove1 i (executing s), handle := (handle s)[i := Fulfilled],
                     pc := settled (pc s) i\<rparr>"
      using fulfilled(5) mem by (simp add: splice1_indexOf)
    have 1: "inv_log items s'" using lg s' by (simp add: inv_log_def)
    have 2: "inv_exec s'"
      unfolding inv_exec_def s' using d a fulfilled(1-4)
      by (auto simp: e nth_list_update)
    have 3: "inv_pc L s'"
    proof (rule inv_pc_settled [OF p fulfilled(2,3)])
      show "Fulfilled \<noteq> Pending" by simp
      show "set (remove1 i (executing s)) \<subseteq> set (executing s)" by (rule set_remove1_subset)
      show "length (remove1 i (executing s)) \<le> length (executing s)" by (simp add: length_remove1)
    qed (simp_all add: s')
    show ?thesis using 1 2 3 by (simp add: run_inv_def)
  next
    case rejected
    note s' = rejected(5)
    have 1: "inv_log items s'" using lg s' by (simp add: inv_log_def)
    have 2: "inv_exec s'"
      unfolding inv_exec_def s' using d a rejected(1-4)
      by (auto simp: e nth_list_update)
    have 3: "inv_pc L s'"
    proof (rule inv_pc_settled [OF p rejected(2,3)])
      show "Rejected \<noteq> Pending" by simp
      show "set (executing s) \<subseteq> set (executing s)" by simp
    qed (simp_all add: s')
    show ?thesis using 1 2 3 by (simp add: run_inv_def)
  qed
qed


lemma inv_Wake:
  assumes "run_inv L items s" "step L s (Wake i) = Some s'"
  shows "run_inv L items s'"
proof -
  have lg: "inv_log items s" and ex: "inv_exec s" and p: "inv_pc L s"
    using assms(1) by (simp_all add: run_inv_def)
  have d: "distinct (executing s)" and
       e: "set (executing s) = {i. i < length (handle s) \<and> handle s ! i \<noteq> Fulfilled}"
    using ex by (simp_all add: inv_exec_def)
  obtain q where s': "s' = s\<lparr>pc := q\<rparr>"
    using assms(2) by (cases "pc s") (auto split: if_splits)
  have 1: "inv_log items s'" using lg s' by (simp add: inv_log_def)
  have 2: "inv_exec s'" using ex s' by (simp add: inv_exec_def)
  have 3: "inv_pc L s'"
  proof (cases "pc s")
    case (Racing snap winner)
    with assms(2) have i: "winner = Some i" "i < length (handle s)" "handle s ! i \<noteq> Pending"
      and q: "pc s' = (if handle s ! i = Fulfilled then Pulling else Thrown)" "executing s' = executing s"
      by (auto split: if_splits)
    from p i(1) have sn: "distinct snap" "set (executing s) \<subseteq> set snap" "int (length snap) \<le> max L 1"
      and b: "int (length (executing s)) \<le> max L 1" and mem: "i \<in> set snap"
      by (simp_all add: inv_pc_Racing [OF Racing])
    show ?thesis
    proof (cases "handle s ! i = Fulfilled")
      case True
      then have "i \<notin> set (executing s)" by (simp add: e)
      with sn(2) mem have "set (executing s) \<subset> set snap" by auto
      then have "card (set (executing s)) < card (set snap)" by (simp add: psubset_card_mono)
      then have "length (executing s) < length snap"
        using d sn(1) by (simp add: distinct_card)
      with sn(3) True q b show ?thesis by (simp add: inv_pc_def)
    next
      case False
      with q b show ?thesis by (simp add: inv_pc_def)
    qed
  next
    case (Joining snap)
    with assms(2) have "pc s' = Thrown" "executing s' = executing s" by (auto split: if_splits)
    with p show ?thesis by (simp add: inv_pc_def)
  qed (use assms(2) in simp_all)
  show ?thesis using 1 2 3 by (simp add: run_inv_def)
qed

lemma inv_Finish:
  assumes "run_inv L items s" "step L s Finish = Some s'"
  shows "run_inv L items s'"
proof -
  have lg: "inv_log items s" and ex: "inv_exec s" and p: "inv_pc L s"
    using assms(1) by (simp_all add: run_inv_def)
  have e: "set (executing s) = {i. i < length (handle s) \<and> handle s ! i \<noteq> Fulfilled}"
    using ex by (simp_all add: inv_exec_def)
  obtain snap where j: "pc s = Joining snap"
    and all: "list_all (\<lambda>i. i < length (handle s) \<and> handle s ! i = Fulfilled) snap"
    and s': "s' = s\<lparr>pc := Returned\<rparr>"
    using assms(2) by (cases "pc s") (auto split: if_splits)
  have 1: "inv_log items s'" using lg s' by (simp add: inv_log_def)
  have 2: "inv_exec s'" using ex s' by (simp add: inv_exec_def)
  from p j have src: "source s = []" and sub: "set (executing s) \<subseteq> set snap"
    and b: "int (length (executing s)) \<le> max L 1"
    by (simp_all add: inv_pc_def)
  have "k \<notin> set (executing s)" for k
  proof
    assume k: "k \<in> set (executing s)"
    with sub have "k \<in> set snap" by auto
    with all have "handle s ! k = Fulfilled" by (simp add: list_all_iff)
    with k show False by (simp add: e)
  qed
  then have "executing s = []" by (cases "executing s") auto
  then have 3: "inv_pc L s'" using s' src b by (simp add: inv_pc_def)
  show ?thesis using 1 2 3 by (simp add: run_inv_def)
qed

lemma inv_step: "run_inv L items s \<Longrightarrow> step L s e = Some s' \<Longrightarrow> run_inv L items s'"
  by (cases e) (auto intro: inv_Next inv_Settle inv_Reaction inv_Wake inv_Finish)

lemma inv_exec_run: "run_inv L items s \<Longrightarrow> exec L s es = Some s' \<Longrightarrow> run_inv L items s'"
proof (induction es arbitrary: s)
  case Nil then show ?case by simp
next
  case (Cons e es)
  then obtain s1 where "step L s e = Some s1" "exec L s1 es = Some s'"
    by (auto split: option.splits)
  with Cons show ?case using inv_step by blast
qed

lemma inv_concurrent:
  "concurrent items limit schedule = Some s \<Longrightarrow>
     run_inv (case limit of None \<Rightarrow> 200 | Some l \<Rightarrow> l) items s"
  unfolding concurrent_def using inv_exec_run inv_entered by blast


lemma unresolved_le_executing:
  assumes "inv_log items s" "inv_exec s"
  shows "unresolved s \<le> length (executing s)"
proof -
  have len: "length (worker s) = length (handle s)" using assms(1) by (simp add: inv_log_def)
  have d: "distinct (executing s)" and
       e: "set (executing s) = {i. i < length (handle s) \<and> handle s ! i \<noteq> Fulfilled}" and
       a: "\<forall>i < length (handle s). handle s ! i = Pending \<or> handle s ! i = worker s ! i"
    using assms(2) by (simp_all add: inv_exec_def)
  have "unresolved s = card {i. i < length (worker s) \<and> worker s ! i = Pending}"
    by (simp add: unresolved_def length_filter_conv_card)
  also have "\<dots> \<le> card (set (executing s))"
  proof (rule card_mono)
    show "finite (set (executing s))" by simp
    show "{i. i < length (worker s) \<and> worker s ! i = Pending} \<subseteq> set (executing s)"
      using a len by (auto simp: e)
  qed
  also have "\<dots> = length (executing s)" using d by (simp add: distinct_card)
  finally show ?thesis .
qed

subsection \<open>Four runs\<close>

text \<open>
  Two items under limit 1, both workers fulfilling; the same with the first worker
  rejecting; limit 0; and one item under the default limit whose worker rejects before
  the source is exhausted.
\<close>

lemma run_ok:
  "concurrent [10, 20 :: nat] (Some 1)
     [Next, Settle 0 True, Reaction 0, Wake 0, Next, Settle 1 True, Reaction 1, Wake 1, Next, Finish]
   = Some \<lparr>source = [], invoked = [10, 20], worker = [Fulfilled, Fulfilled],
           handle = [Fulfilled, Fulfilled], executing = [], pc = Returned\<rparr>"
  by (simp add: concurrent_def entered_def splice1_def indexOf_def first_settled_def Let_def)

lemma run_rejected:
  "concurrent [10, 20 :: nat] (Some 1) [Next, Settle 0 False, Reaction 0, Wake 0]
   = Some \<lparr>source = [20], invoked = [10], worker = [Rejected],
           handle = [Rejected], executing = [0], pc = Thrown\<rparr>"
  by (simp add: concurrent_def entered_def splice1_def indexOf_def first_settled_def Let_def)

lemma run_zero:
  "concurrent [10, 20 :: nat] (Some 0) [Next]
   = Some \<lparr>source = [20], invoked = [10], worker = [Pending],
           handle = [Pending], executing = [0], pc = Racing [0] None\<rparr>"
  by (simp add: concurrent_def entered_def splice1_def indexOf_def first_settled_def Let_def)

lemma run_rejected_default:
  "concurrent [10 :: nat] None [Next, Settle 0 False, Reaction 0, Next, Wake 0]
   = Some \<lparr>source = [], invoked = [10], worker = [Rejected],
           handle = [Rejected], executing = [0], pc = Thrown\<rparr>"
  by (simp add: concurrent_def entered_def splice1_def indexOf_def first_settled_def Let_def)

subsection \<open>More facts of every state\<close>

lemma inv_snap_entered: "inv_snap (entered items)"
  by (simp add: inv_snap_def entered_def)

lemma rejected_update:
  assumes "Rejected \<in> set hs" "hs ! j = Pending"
  shows "Rejected \<in> set (hs[j := x])"
proof -
  from assms(1) obtain k where k: "k < length hs" "hs ! k = Rejected"
    by (auto simp: in_set_conv_nth)
  with assms(2) have "k \<noteq> j" by auto
  with k have "hs[j := x] ! k = Rejected" "k < length (hs[j := x])" by simp_all
  then show ?thesis by (metis nth_mem)
qed

lemma inv_snap_step:
  assumes i: "run_inv L items s" and sn: "inv_snap s" and st: "step L s e = Some s'"
  shows "inv_snap s'"
proof (cases e)
  case Next
  with st have "step L s Next = Some s'" by simp
  then show ?thesis
  proof (cases rule: step_Next_cases)
    case exhausted
    have "set (executing s) = {i. i < length (handle s) \<and> handle s ! i \<noteq> Fulfilled}"
      using i by (simp add: run_inv_def inv_exec_def)
    then have "list_all (\<lambda>i. i < length (handle s)) (executing s)"
      by (auto simp: list_all_iff)
    with exhausted show ?thesis by (simp add: inv_snap_def)
  next
    case (item x rest)
    have e: "set (executing s) = {i. i < length (handle s) \<and> handle s ! i \<noteq> Fulfilled}"
      and n: "length (invoked s) = length (handle s)"
      using i by (simp_all add: run_inv_def inv_exec_def inv_log_def)
    have "list_all (\<lambda>i. i < Suc (length (handle s))) (executing s @ [length (invoked s)])"
      using n by (auto simp: list_all_iff e)
    with item show ?thesis by (simp add: inv_snap_def first_settled_None)
  qed
next
  case (Settle j ok)
  with st have s': "s' = s\<lparr>worker := (worker s)[j := (if ok then Fulfilled else Rejected)]\<rparr>"
    by (auto split: if_splits)
  with sn show ?thesis by (cases "pc s") (simp_all add: inv_snap_def)
next
  case (Reaction j)
  with st have "step L s (Reaction j) = Some s'" by simp
  then obtain x where j: "j < length (handle s)" "handle s ! j = Pending"
    and h: "handle s' = (handle s)[j := x]" and p: "pc s' = settled (pc s) j"
    by (cases rule: step_Reaction_cases) simp_all
  show ?thesis
  proof (cases "pc s")
    case (Racing snap winner)
    from sn Racing have 1: "snap \<noteq> []" "list_all (\<lambda>i. i < length (handle s)) snap"
      and 2: "winner = None \<longrightarrow> list_all (\<lambda>i. handle s ! i = Pending) snap"
      by (simp_all add: inv_snap_def)
    show ?thesis
    proof (cases "winner = None \<and> j \<notin> set snap")
      case True
      then have "pc s' = Racing snap None" using p Racing by simp
      moreover have "(handle s)[j := x] ! i = Pending" if "i \<in> set snap" for i
      proof -
        have "i \<noteq> j" using that True by auto
        then have "(handle s)[j := x] ! i = handle s ! i" by simp
        with 2 True that show ?thesis by (simp add: list_all_iff)
      qed
      then have "list_all (\<lambda>i. (handle s)[j := x] ! i = Pending) snap"
        by (simp add: list_all_iff)
      moreover note 1 h
      ultimately show ?thesis by (simp add: inv_snap_def)
    next
      case False
      then obtain k where "pc s' = Racing snap (Some k)"
        using p Racing by (cases winner) auto
      then show ?thesis using 1 h by (simp add: inv_snap_def)
    qed
  next
    case Thrown
    with sn have "Rejected \<in> set (handle s)" by (simp add: inv_snap_def)
    then have "Rejected \<in> set ((handle s)[j := x])" using j(2) by (rule rejected_update)
    with Thrown p h show ?thesis by (simp add: inv_snap_def)
  qed (use sn p h in \<open>simp_all add: inv_snap_def\<close>)
next
  case (Wake j)
  show ?thesis
  proof (cases "pc s")
    case (Racing snap winner)
    with st Wake have j: "j < length (handle s)" "handle s ! j \<noteq> Pending"
      and s': "s' = s\<lparr>pc := (if handle s ! j = Fulfilled then Pulling else Thrown)\<rparr>"
      by (auto split: if_splits)
    show ?thesis
    proof (cases "handle s ! j = Fulfilled")
      case True
      with s' show ?thesis by (simp add: inv_snap_def)
    next
      case False
      with j have "handle s ! j = Rejected" by (cases "handle s ! j") simp_all
      with j have "Rejected \<in> set (handle s)" by (metis nth_mem)
      with False s' show ?thesis by (simp add: inv_snap_def)
    qed
  next
    case (Joining snap)
    with st Wake have j: "j < length (handle s)" "handle s ! j = Rejected"
      and s': "s' = s\<lparr>pc := Thrown\<rparr>"
      by (auto split: if_splits)
    from j have "Rejected \<in> set (handle s)" by (metis nth_mem)
    with s' show ?thesis by (simp add: inv_snap_def)
  qed (use st Wake in simp_all)
next
  case Finish
  with st obtain snap where "pc s = Joining snap" "s' = s\<lparr>pc := Returned\<rparr>"
    by (cases "pc s") (auto split: if_splits)
  then show ?thesis by (simp add: inv_snap_def)
qed

lemma exec_append:
  "exec L s (es @ es') = (case exec L s es of None \<Rightarrow> None | Some s1 \<Rightarrow> exec L s1 es')"
  by (induction es arbitrary: s) (auto split: option.splits)

lemma exec_then:
  "exec L s es = Some s1 \<Longrightarrow> exec L s1 es' = Some s2 \<Longrightarrow> exec L s (es @ es') = Some s2"
  by (simp add: exec_append)

lemma inv_snap_exec:
  "run_inv L items s \<Longrightarrow> inv_snap s \<Longrightarrow> exec L s es = Some s' \<Longrightarrow> inv_snap s'"
proof (induction es arbitrary: s)
  case Nil then show ?case by simp
next
  case (Cons e es)
  then obtain s1 where 1: "step L s e = Some s1" "exec L s1 es = Some s'"
    by (auto split: option.splits)
  have "run_inv L items s1" using Cons.prems(1) 1(1) by (rule inv_step)
  moreover have "inv_snap s1" using Cons.prems(1,2) 1(1) by (rule inv_snap_step)
  ultimately show ?case using 1(2) by (rule Cons.IH)
qed

text \<open>The states of the runs of \<open>concurrent\<close>, and the runs that go on from one of them.\<close>

lemma concurrent_state:
  assumes "concurrent items limit schedule = Some s"
  shows "run_inv (case limit of None \<Rightarrow> 200 | Some l \<Rightarrow> l) items s" and "inv_snap s"
    and "exec (case limit of None \<Rightarrow> 200 | Some l \<Rightarrow> l) (entered items) schedule = Some s"
proof -
  let ?L = "case limit of None \<Rightarrow> 200 | Some l \<Rightarrow> l"
  show e: "exec ?L (entered items) schedule = Some s" using assms by (simp add: concurrent_def)
  show "run_inv ?L items s" using assms by (rule inv_concurrent)
  show "inv_snap s" using inv_entered inv_snap_entered e by (rule inv_snap_exec)
qed

lemma concurrent_append:
  "concurrent items limit schedule = Some s \<Longrightarrow>
     concurrent items limit (schedule @ es) = exec (case limit of None \<Rightarrow> 200 | Some l \<Rightarrow> l) s es"
  by (simp add: concurrent_def exec_append)

subsection \<open>A run whose workers fulfil can be completed\<close>

lemma good_entered: "good L items (entered items)"
  using inv_entered [of L items] inv_snap_entered [of items]
  by (simp add: good_def no_rejection_def) (simp add: entered_def)

lemma no_rejection_step:
  assumes "no_rejection s" "step L s e = Some s'" "\<forall>i. e \<noteq> Settle i False"
  shows "no_rejection s'"
proof (cases e)
  case Next
  with assms(2) have "step L s Next = Some s'" by simp
  then show ?thesis using assms(1) by (cases rule: step_Next_cases) (simp_all add: no_rejection_def)
next
  case (Settle j ok)
  with assms(3) have ok by (cases ok) auto
  with assms(2) Settle have "s' = s\<lparr>worker := (worker s)[j := Fulfilled]\<rparr>"
    by (auto split: if_splits)
  moreover have "set ((worker s)[j := Fulfilled]) \<subseteq> insert Fulfilled (set (worker s))"
    by (rule set_update_subset_insert)
  ultimately show ?thesis using assms(1) by (auto simp: no_rejection_def)
next
  case (Reaction j)
  with assms(2) have "step L s (Reaction j) = Some s'" by simp
  then show ?thesis using assms(1)
    by (cases rule: step_Reaction_cases) (simp_all add: no_rejection_def)
next
  case (Wake j)
  with assms(2) obtain q where "s' = s\<lparr>pc := q\<rparr>"
    by (cases "pc s") (auto split: if_splits)
  with assms(1) show ?thesis by (simp add: no_rejection_def)
next
  case Finish
  with assms(2) obtain q where "s' = s\<lparr>pc := q\<rparr>"
    by (cases "pc s") (auto split: if_splits)
  with assms(1) show ?thesis by (simp add: no_rejection_def)
qed

lemma good_step:
  "good L items s \<Longrightarrow> step L s e = Some s' \<Longrightarrow> \<forall>i. e \<noteq> Settle i False \<Longrightarrow> good L items s'"
  unfolding good_def using inv_step inv_snap_step no_rejection_step by blast

lemma place_settled [simp]: "place (settled p i) = place p"
  by (cases "(p, i)" rule: settled.cases) simp_all

text \<open>A pending handle is brought to fulfilment: its worker settles, its reaction runs.\<close>

lemma fulfil_handle:
  assumes g: "good L items s" and i: "i < length (handle s)" "handle s ! i = Pending"
  shows "\<exists>es s'. exec L s es = Some s' \<and> good L items s' \<and> place (pc s') = place (pc s) \<and>
           source s' = source s \<and> executing s' = remove1 i (executing s)"
proof -
  have inv: "run_inv L items s" and nr: "no_rejection s" using g by (simp_all add: good_def)
  have len: "length (worker s) = length (handle s)"
    and e: "set (executing s) = {i. i < length (handle s) \<and> handle s ! i \<noteq> Fulfilled}"
    using inv by (simp_all add: run_inv_def inv_log_def inv_exec_def)
  have mem: "i \<in> set (executing s)" using i by (simp add: e)
  have wi: "worker s ! i \<noteq> Rejected"
    using nr i len by (metis no_rejection_def nth_mem)
  show ?thesis
  proof (cases "worker s ! i = Pending")
    case True
    let ?s1 = "s\<lparr>worker := (worker s)[i := Fulfilled]\<rparr>"
    let ?s2 = "?s1\<lparr>executing := remove1 i (executing s), handle := (handle s)[i := Fulfilled],
                   pc := settled (pc s) i\<rparr>"
    have 1: "step L s (Settle i True) = Some ?s1" using True i len by simp
    have 2: "step L ?s1 (Reaction i) = Some ?s2"
      using i len mem by (simp add: splice1_indexOf)
    have g1: "good L items ?s1" using good_step [OF g 1] by simp
    have g2: "good L items ?s2" using good_step [OF g1 2] by simp
    have "exec L s [Settle i True, Reaction i] = Some ?s2" using 1 2 by simp
    with g2 show ?thesis by (intro exI [of _ "[Settle i True, Reaction i]"] exI [of _ ?s2]) simp
  next
    case False
    with wi have f: "worker s ! i = Fulfilled" by (cases "worker s ! i") simp_all
    let ?s2 = "s\<lparr>executing := remove1 i (executing s), handle := (handle s)[i := Fulfilled],
                 pc := settled (pc s) i\<rparr>"
    have 2: "step L s (Reaction i) = Some ?s2"
      using i len mem f by (simp add: splice1_indexOf)
    have g2: "good L items ?s2" using good_step [OF g 2] by simp
    have "exec L s [Reaction i] = Some ?s2" using 2 by simp
    with g2 show ?thesis by (intro exI [of _ "[Reaction i]"] exI [of _ ?s2]) simp
  qed
qed

text \<open>Every handle in flight is brought to fulfilment, and the array is empty.\<close>

lemma drain:
  "good L items s \<Longrightarrow>
     \<exists>es s'. exec L s es = Some s' \<and> good L items s' \<and> place (pc s') = place (pc s) \<and>
       source s' = source s \<and> executing s' = []"
proof (induction "length (executing s)" arbitrary: s)
  case 0
  then have "exec L s [] = Some s" "executing s = []" by simp_all
  with "0.prems" show ?case by blast
next
  case (Suc k)
  then obtain i rest where ex: "executing s = i # rest" by (cases "executing s") auto
  have inv: "run_inv L items s" and nr: "no_rejection s"
    using Suc.prems by (simp_all add: good_def)
  have len: "length (worker s) = length (handle s)"
    and e: "set (executing s) = {i. i < length (handle s) \<and> handle s ! i \<noteq> Fulfilled}"
    and a: "\<forall>i < length (handle s). handle s ! i = Pending \<or> handle s ! i = worker s ! i"
    using inv by (simp_all add: run_inv_def inv_log_def inv_exec_def)
  have "i \<in> set (executing s)" using ex by simp
  then have i: "i < length (handle s)" "handle s ! i \<noteq> Fulfilled" by (simp_all add: e)
  have "worker s ! i \<noteq> Rejected" using nr i(1) len by (metis no_rejection_def nth_mem)
  with a i have p: "handle s ! i = Pending" by (cases "handle s ! i") auto
  from fulfil_handle [OF Suc.prems i(1) p] obtain es1 s1 where
    1: "exec L s es1 = Some s1" "good L items s1" "place (pc s1) = place (pc s)"
       "source s1 = source s" "executing s1 = remove1 i (executing s)"
    by blast
  have "k = length (executing s1)" using Suc.hyps(2) ex 1(5) by simp
  from Suc.hyps(1) [OF this 1(2)] obtain es2 s2 where
    2: "exec L s1 es2 = Some s2" "good L items s2" "place (pc s2) = place (pc s1)"
       "source s2 = source s1" "executing s2 = []"
    by blast
  have "exec L s (es1 @ es2) = Some s2" using 1(1) 2(1) by (rule exec_then)
  with 1 2 show ?case by (intro exI [of _ "es1 @ es2"] exI [of _ s2]) simp
qed

lemma all_fulfilled:
  assumes "run_inv L items s" "executing s = []" "i < length (handle s)"
  shows "handle s ! i = Fulfilled"
proof -
  have "set (executing s) = {i. i < length (handle s) \<and> handle s ! i \<noteq> Fulfilled}"
    using assms(1) by (simp add: run_inv_def inv_exec_def)
  with assms(2,3) show ?thesis by auto
qed

lemma place_Racing: "place p = Racing snap None \<longleftrightarrow> (\<exists>winner. p = Racing snap winner)"
  by (cases p) auto

lemma place_Pulling [simp]: "place p = Pulling \<longleftrightarrow> p = Pulling"
  by (cases p) auto

lemma place_Joining [simp]: "place p = Joining snap \<longleftrightarrow> p = Joining snap"
  by (cases p) auto

text \<open>A race is won once its handles have fulfilled, and the loop is back at its head.\<close>

lemma leave_race:
  assumes g: "good L items s" and r: "pc s = Racing snap winner"
  shows "\<exists>es s'. exec L s es = Some s' \<and> good L items s' \<and> pc s' = Pulling \<and>
           source s' = source s"
proof -
  from drain [OF g] obtain es1 s1 where
    1: "exec L s es1 = Some s1" "good L items s1" "place (pc s1) = place (pc s)"
       "source s1 = source s" "executing s1 = []"
    by blast
  from 1(3) r obtain w where p1: "pc s1 = Racing snap w" by (auto simp: place_Racing)
  have inv: "run_inv L items s1" and sn: "inv_snap s1" using 1(2) by (simp_all add: good_def)
  from sn p1 have ne: "snap \<noteq> []" and lt: "list_all (\<lambda>i. i < length (handle s1)) snap"
    and pe: "w = None \<longrightarrow> list_all (\<lambda>i. handle s1 ! i = Pending) snap"
    by (simp_all add: inv_snap_def)
  from ne obtain k where k: "k \<in> set snap" by (cases snap) auto
  with lt have "k < length (handle s1)" by (simp add: list_all_iff)
  then have "handle s1 ! k = Fulfilled" using inv 1(5) by (intro all_fulfilled)
  with pe k have "w \<noteq> None" by (auto simp: list_all_iff)
  then obtain i where w: "w = Some i" by auto
  have "inv_pc L s1" using inv by (simp add: run_inv_def)
  with p1 w have i: "i < length (handle s1)" by (simp add: inv_pc_Racing)
  have f: "handle s1 ! i = Fulfilled" using inv 1(5) i by (rule all_fulfilled)
  let ?s2 = "s1\<lparr>pc := Pulling\<rparr>"
  have 2: "step L s1 (Wake i) = Some ?s2" using p1 w i f by simp
  have g2: "good L items ?s2" using good_step [OF 1(2) 2] by simp
  have "exec L s1 [Wake i] = Some ?s2" using 2 by simp
  with 1(1) have "exec L s (es1 @ [Wake i]) = Some ?s2" by (rule exec_then)
  with g2 1(4) show ?thesis by (intro exI [of _ "es1 @ [Wake i]"] exI [of _ ?s2]) simp
qed

text \<open>From the head of the loop the run goes on to its end, by induction on the source.\<close>

lemma complete_from_head:
  "good L items s \<Longrightarrow> pc s = Pulling \<Longrightarrow>
     \<exists>es s'. exec L s es = Some s' \<and> good L items s' \<and> pc s' = Returned"
proof (induction "length (source s)" arbitrary: s)
  case 0
  from drain [OF "0.prems"(1)] obtain es1 s1 where
    1: "exec L s es1 = Some s1" "good L items s1" "place (pc s1) = place (pc s)"
       "source s1 = source s" "executing s1 = []"
    by blast
  have p1: "pc s1 = Pulling" using 1(3) "0.prems"(2) by simp
  let ?s2 = "s1\<lparr>pc := Joining []\<rparr>"
  let ?s3 = "?s2\<lparr>pc := Returned\<rparr>"
  have 2: "step L s1 Next = Some ?s2" using p1 1(4,5) "0.hyps" by simp
  have 3: "step L ?s2 Finish = Some ?s3" by simp
  have g3: "good L items ?s3" using good_step [OF good_step [OF 1(2) 2] 3] by simp
  have "exec L s1 [Next, Finish] = Some ?s3" using 2 3 by simp
  with 1(1) have "exec L s (es1 @ [Next, Finish]) = Some ?s3" by (rule exec_then)
  with g3 show ?case by (intro exI [of _ "es1 @ [Next, Finish]"] exI [of _ ?s3]) simp
next
  case (Suc k)
  from drain [OF Suc.prems(1)] obtain es1 s1 where
    1: "exec L s es1 = Some s1" "good L items s1" "place (pc s1) = place (pc s)"
       "source s1 = source s" "executing s1 = []"
    by blast
  have p1: "pc s1 = Pulling" using 1(3) Suc.prems(2) by simp
  have "Suc k = length (source s1)" using Suc.hyps(2) 1(4) by simp
  then obtain x rest where src: "source s1 = x # rest" "k = length rest"
    by (cases "source s1") auto
  obtain s2 where 2: "step L s1 Next = Some s2" and s2: "source s2 = rest"
    "pc s2 = Pulling \<or> (\<exists>snap w. pc s2 = Racing snap w)"
    using p1 src(1) by (auto simp: Let_def)
  have g2: "good L items s2" using good_step [OF 1(2) 2] by simp
  have e12: "exec L s (es1 @ [Next]) = Some s2"
    using 1(1) 2 by (intro exec_then [of L s es1 s1]) simp_all
  from s2(2) obtain es3 s3 where
    3: "exec L s2 es3 = Some s3" "good L items s3" "pc s3 = Pulling" "source s3 = rest"
  proof
    assume "pc s2 = Pulling"
    then have "exec L s2 [] = Some s2" "pc s2 = Pulling" by simp_all
    with g2 s2(1) that show ?thesis by blast
  next
    assume "\<exists>snap w. pc s2 = Racing snap w"
    then obtain snap w where "pc s2 = Racing snap w" by blast
    from leave_race [OF g2 this] s2(1) that show ?thesis by auto
  qed
  have "k = length (source s3)" using src(2) 3(4) by simp
  from Suc.hyps(1) [OF this 3(2,3)] obtain es4 s4 where
    4: "exec L s3 es4 = Some s4" "good L items s4" "pc s4 = Returned"
    by blast
  have "exec L s ((es1 @ [Next]) @ es3 @ es4) = Some s4"
    using e12 3(1) 4(1) by (intro exec_then [OF e12] exec_then [OF 3(1)])
  with 4 show ?case by blast
qed

lemma can_complete:
  assumes "good L items s"
  shows "\<exists>es s'. exec L s es = Some s' \<and> pc s' = Returned"
proof (cases "pc s")
  case Pulling
  with complete_from_head [OF assms] show ?thesis by blast
next
  case (Racing snap winner)
  from leave_race [OF assms this] obtain es1 s1 where
    1: "exec L s es1 = Some s1" "good L items s1" "pc s1 = Pulling" by blast
  from complete_from_head [OF 1(2,3)] obtain es2 s2 where
    2: "exec L s1 es2 = Some s2" "pc s2 = Returned" by blast
  from exec_then [OF 1(1) 2(1)] 2(2) show ?thesis by blast
next
  case (Joining snap)
  from drain [OF assms] obtain es1 s1 where
    1: "exec L s es1 = Some s1" "good L items s1" "place (pc s1) = place (pc s)" "executing s1 = []"
    by blast
  have p1: "pc s1 = Joining snap" using 1(3) Joining by simp
  have inv: "run_inv L items s1" and sn: "inv_snap s1" using 1(2) by (simp_all add: good_def)
  have all: "list_all (\<lambda>i. i < length (handle s1) \<and> handle s1 ! i = Fulfilled) snap"
    using sn p1 all_fulfilled [OF inv 1(4)] by (auto simp: inv_snap_def list_all_iff)
  let ?s2 = "s1\<lparr>pc := Returned\<rparr>"
  have "step L s1 Finish = Some ?s2" using p1 all by simp
  then have "exec L s1 [Finish] = Some ?s2" by simp
  from exec_then [OF 1(1) this] show ?thesis by (intro exI [of _ "es1 @ [Finish]"] exI [of _ ?s2]) simp
next
  case Returned
  then have "exec L s [] = Some s" "pc s = Returned" by simp_all
  then show ?thesis by blast
next
  case Thrown
  have len: "length (worker s) = length (handle s)"
    and a: "\<forall>i < length (handle s). handle s ! i = Pending \<or> handle s ! i = worker s ! i"
    using assms by (simp_all add: good_def run_inv_def inv_log_def inv_exec_def)
  from assms Thrown have "Rejected \<in> set (handle s)" by (simp add: good_def inv_snap_def)
  then obtain k where k: "k < length (handle s)" "handle s ! k = Rejected"
    by (auto simp: in_set_conv_nth)
  with a have "worker s ! k = Rejected" by auto
  with k len have "Rejected \<in> set (worker s)" by (metis nth_mem)
  with assms show ?thesis by (simp add: good_def no_rejection_def)
qed

lemma concurrent_can_complete:
  assumes c: "concurrent items limit schedule = Some s" and nr: "Rejected \<notin> set (worker s)"
  shows "\<exists>es s'. concurrent items limit (schedule @ es) = Some s' \<and> pc s' = Returned"
proof -
  let ?L = "case limit of None \<Rightarrow> 200 | Some l \<Rightarrow> l"
  have "good ?L items s" using concurrent_state(1,2) [OF c] nr by (simp add: good_def no_rejection_def)
  then obtain es s' where "exec ?L s es = Some s'" "pc s' = Returned"
    using can_complete by blast
  then show ?thesis using concurrent_append [OF c] by auto
qed

subsection \<open>A run in which an invocation has rejected\<close>

text \<open>A promise that has settled stays as it is.\<close>

lemma settled_stays_step:
  assumes "step L s e = Some s'"
  shows "i < length (worker s) \<Longrightarrow> worker s ! i \<noteq> Pending \<Longrightarrow>
           i < length (worker s') \<and> worker s' ! i = worker s ! i"
    and "i < length (handle s) \<Longrightarrow> handle s ! i \<noteq> Pending \<Longrightarrow>
           i < length (handle s') \<and> handle s' ! i = handle s ! i"
proof -
  have "(i < length (worker s) \<longrightarrow> worker s ! i \<noteq> Pending \<longrightarrow>
           i < length (worker s') \<and> worker s' ! i = worker s ! i) \<and>
        (i < length (handle s) \<longrightarrow> handle s ! i \<noteq> Pending \<longrightarrow>
           i < length (handle s') \<and> handle s' ! i = handle s ! i)"
  proof (cases e)
    case Next
    with assms have "step L s Next = Some s'" by simp
    then show ?thesis by (cases rule: step_Next_cases) (simp_all add: nth_append)
  next
    case (Settle j ok)
    with assms have s': "s' = s\<lparr>worker := (worker s)[j := (if ok then Fulfilled else Rejected)]\<rparr>"
      and j: "worker s ! j = Pending"
      by (auto split: if_splits)
    have "(worker s)[j := x] ! i = worker s ! i" if "worker s ! i \<noteq> Pending" for x
    proof -
      from that j have "j \<noteq> i" by auto
      then show ?thesis by simp
    qed
    then show ?thesis using s' by simp
  next
    case (Reaction j)
    with assms have "step L s (Reaction j) = Some s'" by simp
    then show ?thesis by (cases rule: step_Reaction_cases) (auto simp: nth_list_update)
  next
    case (Wake j)
    with assms obtain q where "s' = s\<lparr>pc := q\<rparr>" by (cases "pc s") (auto split: if_splits)
    then show ?thesis by simp
  next
    case Finish
    with assms obtain q where "s' = s\<lparr>pc := q\<rparr>" by (cases "pc s") (auto split: if_splits)
    then show ?thesis by simp
  qed
  then show "i < length (worker s) \<Longrightarrow> worker s ! i \<noteq> Pending \<Longrightarrow>
           i < length (worker s') \<and> worker s' ! i = worker s ! i"
    and "i < length (handle s) \<Longrightarrow> handle s ! i \<noteq> Pending \<Longrightarrow>
           i < length (handle s') \<and> handle s' ! i = handle s ! i"
    by simp_all
qed

lemma settled_stays:
  assumes "exec L s es = Some s'"
  shows "i < length (worker s) \<Longrightarrow> worker s ! i \<noteq> Pending \<Longrightarrow>
           i < length (worker s') \<and> worker s' ! i = worker s ! i"
    and "i < length (handle s) \<Longrightarrow> handle s ! i \<noteq> Pending \<Longrightarrow>
           i < length (handle s') \<and> handle s' ! i = handle s ! i"
proof -
  have "(i < length (worker s) \<longrightarrow> worker s ! i \<noteq> Pending \<longrightarrow>
           i < length (worker s') \<and> worker s' ! i = worker s ! i) \<and>
        (i < length (handle s) \<longrightarrow> handle s ! i \<noteq> Pending \<longrightarrow>
           i < length (handle s') \<and> handle s' ! i = handle s ! i)"
    using assms
  proof (induction es arbitrary: s)
    case Nil
    then show ?case by simp
  next
    case (Cons e es)
    then obtain s1 where 1: "step L s e = Some s1" "exec L s1 es = Some s'"
      by (auto split: option.splits)
    from settled_stays_step [OF 1(1), of i] Cons.IH [OF 1(2)] show ?case by auto
  qed
  then show "i < length (worker s) \<Longrightarrow> worker s ! i \<noteq> Pending \<Longrightarrow>
           i < length (worker s') \<and> worker s' ! i = worker s ! i"
    and "i < length (handle s) \<Longrightarrow> handle s ! i \<noteq> Pending \<Longrightarrow>
           i < length (handle s') \<and> handle s' ! i = handle s ! i"
    by simp_all
qed

text \<open>A handle that has rejected is the handle of a worker that has.\<close>

lemma handle_worker:
  assumes "run_inv L items s" "i < length (handle s)" "handle s ! i \<noteq> Pending"
  shows "i < length (worker s) \<and> worker s ! i = handle s ! i"
  using assms by (auto simp: run_inv_def inv_log_def inv_exec_def)

lemma rejected_in_executing:
  assumes "run_inv L items s" "i < length (worker s)" "worker s ! i = Rejected"
  shows "i < length (handle s) \<and> handle s ! i \<noteq> Fulfilled \<and> i \<in> set (executing s)"
proof -
  have len: "length (worker s) = length (handle s)"
    and e: "set (executing s) = {i. i < length (handle s) \<and> handle s ! i \<noteq> Fulfilled}"
    and a: "\<forall>i < length (handle s). handle s ! i = Pending \<or> handle s ! i = worker s ! i"
    using assms(1) by (simp_all add: run_inv_def inv_log_def inv_exec_def)
  have "i < length (handle s)" using assms(2) len by simp
  moreover from this a assms(3) have "handle s ! i \<noteq> Fulfilled" by auto
  ultimately show ?thesis by (simp add: e)
qed

text \<open>\<open>concurrent\<close> does not return once a worker's promise has rejected.\<close>

lemma rejected_not_Returned:
  assumes "run_inv L items s" "i < length (worker s)" "worker s ! i = Rejected"
  shows "pc s \<noteq> Returned"
proof
  assume "pc s = Returned"
  with assms(1) have "executing s = []" by (simp add: run_inv_def inv_pc_def)
  with rejected_in_executing [OF assms] show False by simp
qed

text \<open>
  Once the awaited promise has rejected, the body does nothing but throw: no job pulls
  an item, and the promise stays rejected.
\<close>

lemma rejecting_step:
  assumes r: "rejecting s" and inv: "run_inv L items s" and st: "step L s e = Some s'"
  shows "rejecting s' \<and> invoked s' = invoked s \<and> source s' = source s"
proof (cases e)
  case Next
  with st r show ?thesis by (cases "pc s") (simp_all add: rejecting_def split: if_splits)
next
  case (Settle j ok)
  with st have "s' = s\<lparr>worker := (worker s)[j := (if ok then Fulfilled else Rejected)]\<rparr>"
    by (auto split: if_splits)
  with r show ?thesis by (cases "pc s") (simp_all add: rejecting_def)
next
  case (Reaction j)
  with st have "step L s (Reaction j) = Some s'" by simp
  then obtain x where j: "j < length (handle s)" "handle s ! j = Pending"
    and h: "handle s' = (handle s)[j := x]" and p: "pc s' = settled (pc s) j"
    and same: "invoked s' = invoked s" "source s' = source s"
    by (cases rule: step_Reaction_cases) simp_all
  have keep: "(handle s)[j := x] ! k = Rejected" if "handle s ! k = Rejected" for k
  proof -
    from that j(2) have "k \<noteq> j" by auto
    with that show ?thesis by simp
  qed
  have "rejecting s'"
  proof (cases "pc s")
    case (Racing snap winner)
    with r obtain k where k: "winner = Some k" "handle s ! k = Rejected"
      by (cases winner) (simp_all add: rejecting_def)
    with Racing p have "pc s' = Racing snap (Some k)" by simp
    with keep [OF k(2)] h show ?thesis by (simp add: rejecting_def)
  next
    case (Joining snap)
    with r obtain k where "k \<in> set snap" "handle s ! k = Rejected"
      by (auto simp: rejecting_def list_ex_iff)
    with keep h have "list_ex (\<lambda>i. handle s' ! i = Rejected) snap"
      by (auto simp: list_ex_iff)
    with Joining p show ?thesis by (simp add: rejecting_def)
  qed (use r p in \<open>simp_all add: rejecting_def\<close>)
  with same show ?thesis by simp
next
  case (Wake j)
  show ?thesis
  proof (cases "pc s")
    case (Racing snap winner)
    with r obtain k where k: "winner = Some k" "handle s ! k = Rejected"
      by (cases winner) (simp_all add: rejecting_def)
    with st Wake Racing have "s' = s\<lparr>pc := Thrown\<rparr>" by (auto split: if_splits)
    then show ?thesis by (simp add: rejecting_def)
  next
    case (Joining snap)
    with st Wake have "s' = s\<lparr>pc := Thrown\<rparr>" by (auto split: if_splits)
    then show ?thesis by (simp add: rejecting_def)
  qed (use st Wake in simp_all)
next
  case Finish
  with st obtain snap where j: "pc s = Joining snap"
    and all: "list_all (\<lambda>i. i < length (handle s) \<and> handle s ! i = Fulfilled) snap"
    by (cases "pc s") (auto split: if_splits)
  from r j obtain k where "k \<in> set snap" "handle s ! k = Rejected"
    by (auto simp: rejecting_def list_ex_iff)
  with all show ?thesis by (auto simp: list_all_iff)
qed

lemma rejecting_exec:
  assumes "rejecting s" "run_inv L items s" "exec L s es = Some s'"
  shows "rejecting s' \<and> invoked s' = invoked s \<and> source s' = source s"
  using assms
proof (induction es arbitrary: s)
  case Nil
  then show ?case by simp
next
  case (Cons e es)
  then obtain s1 where 1: "step L s e = Some s1" "exec L s1 es = Some s'"
    by (auto split: option.splits)
  from rejecting_step [OF Cons.prems(1,2) 1(1)]
  have 2: "rejecting s1" "invoked s1 = invoked s" "source s1 = source s" by simp_all
  have "run_inv L items s1" using Cons.prems(2) 1(1) by (rule inv_step)
  from Cons.IH [OF 2(1) this 1(2)] 2 show ?case by simp
qed

text \<open>The body resumes from a rejected wait by throwing.\<close>

lemma rejecting_wake:
  assumes r: "rejecting s" and inv: "run_inv L items s" and sn: "inv_snap s" and p: "pc s \<noteq> Thrown"
  shows "\<exists>i. step L s (Wake i) = Some (s\<lparr>pc := Thrown\<rparr>)"
proof (cases "pc s")
  case (Racing snap winner)
  with r obtain k where k: "winner = Some k" "handle s ! k = Rejected"
    by (cases winner) (simp_all add: rejecting_def)
  have "inv_pc L s" using inv by (simp add: run_inv_def)
  with Racing k(1) have "k < length (handle s)" by (simp add: inv_pc_Racing)
  with Racing k have "step L s (Wake k) = Some (s\<lparr>pc := Thrown\<rparr>)" by simp
  then show ?thesis ..
next
  case (Joining snap)
  with r obtain k where k: "k \<in> set snap" "handle s ! k = Rejected"
    by (auto simp: rejecting_def list_ex_iff)
  with sn Joining have "k < length (handle s)" by (simp add: inv_snap_def list_all_iff)
  with Joining k have "step L s (Wake k) = Some (s\<lparr>pc := Thrown\<rparr>)" by simp
  then show ?thesis ..
qed (use r p in \<open>simp_all add: rejecting_def\<close>)

text \<open>
  With a rejected handle in the array, the wait the body begins next is rejected from the
  start.
\<close>

lemma next_after_rejection:
  assumes inv: "run_inv L items s" and i: "i < length (handle s)" "handle s ! i = Rejected"
    and st: "step L s Next = Some s'"
  shows "pc s' = Pulling \<or> rejecting s'"
proof -
  have e: "set (executing s) = {i. i < length (handle s) \<and> handle s ! i \<noteq> Fulfilled}"
    and n: "length (invoked s) = length (handle s)"
    using inv by (simp_all add: run_inv_def inv_exec_def inv_log_def)
  have mem: "i \<in> set (executing s)" using i by (simp add: e)
  from st show ?thesis
  proof (cases rule: step_Next_cases)
    case exhausted
    with mem i have "rejecting s'" by (auto simp: rejecting_def list_ex_iff)
    then show ?thesis ..
  next
    case (item x rest)
    let ?ex = "executing s @ [length (invoked s)]"
    let ?hs = "handle s @ [Pending]"
    show ?thesis
    proof (cases "int (length ?ex) \<ge> L")
      case False
      with item show ?thesis by simp
    next
      case True
      have "?hs ! i = Rejected" using i by (simp add: nth_append)
      moreover have "i \<in> set ?ex" using mem by simp
      ultimately have "\<not> list_all (\<lambda>i. ?hs ! i = Pending) ?ex"
        unfolding list_all_iff by (metis pstate.distinct(3))
      then obtain k where k: "first_settled ?hs ?ex = Some k"
        by (cases "first_settled ?hs ?ex") (simp_all add: first_settled_None)
      from first_settled_Some [OF k] have k1: "k \<in> set ?ex" "?hs ! k \<noteq> Pending" by simp_all
      have "k \<noteq> length (handle s)" using k1(2) by (auto simp: nth_append)
      with k1(1) n have "k \<in> set (executing s)" by auto
      then have k2: "k < length (handle s)" "handle s ! k \<noteq> Fulfilled" by (simp_all add: e)
      with k1(2) have "?hs ! k = Rejected" by (cases "handle s ! k") (simp_all add: nth_append)
      with item True k have "rejecting s'" by (simp add: rejecting_def)
      then show ?thesis ..
    qed
  qed
qed

text \<open>
  A race that is undecided holds pending handles only: the first of them to settle decides
  it, and a race that holds a handle that has rejected has been decided.
\<close>

lemma race_decided:
  assumes inv: "run_inv L items s" and sn: "inv_snap s"
    and i: "i < length (handle s)" "handle s ! i = Rejected" and p: "pc s = Racing snap winner"
  shows "i \<in> set snap \<and> winner \<noteq> None"
proof -
  have e: "set (executing s) = {i. i < length (handle s) \<and> handle s ! i \<noteq> Fulfilled}"
    using inv by (simp add: run_inv_def inv_exec_def)
  have "inv_pc L s" using inv by (simp add: run_inv_def)
  with p have "set (executing s) \<subseteq> set snap" by (simp add: inv_pc_Racing)
  with e i have mem: "i \<in> set snap" by auto
  from sn p have "winner = None \<longrightarrow> list_all (\<lambda>i. handle s ! i = Pending) snap"
    by (simp add: inv_snap_def)
  with mem i(2) show ?thesis by (auto simp: list_all_iff)
qed

lemma join_rejecting:
  assumes inv: "run_inv L items s"
    and i: "i < length (handle s)" "handle s ! i = Rejected" and p: "pc s = Joining snap"
  shows "rejecting s"
proof -
  have e: "set (executing s) = {i. i < length (handle s) \<and> handle s ! i \<noteq> Fulfilled}"
    using inv by (simp add: run_inv_def inv_exec_def)
  have "set (executing s) \<subseteq> set snap" using inv p by (simp add: run_inv_def inv_pc_def)
  with e i have "i \<in> set snap" by auto
  with i(2) p show ?thesis by (auto simp: rejecting_def list_ex_iff)
qed

text \<open>
  A run in which a handle has rejected can go on until \<open>concurrent\<close> has thrown: from the
  head of the loop, by induction on the source; then from anywhere.
\<close>

lemma throw_from_wait:
  assumes r: "rejecting s" and inv: "run_inv L items s" and sn: "inv_snap s"
  shows "\<exists>es s'. exec L s es = Some s' \<and> pc s' = Thrown"
proof (cases "pc s = Thrown")
  case True
  then have "exec L s [] = Some s \<and> pc s = Thrown" by simp
  then show ?thesis by blast
next
  case False
  from rejecting_wake [OF r inv sn False] obtain i where
    "step L s (Wake i) = Some (s\<lparr>pc := Thrown\<rparr>)" ..
  then have "exec L s [Wake i] = Some (s\<lparr>pc := Thrown\<rparr>) \<and> pc (s\<lparr>pc := Thrown\<rparr>) = Thrown"
    by simp
  then show ?thesis by blast
qed

lemma throw_from_head:
  "run_inv L items s \<Longrightarrow> inv_snap s \<Longrightarrow> i < length (handle s) \<Longrightarrow> handle s ! i = Rejected \<Longrightarrow>
   pc s = Pulling \<Longrightarrow> \<exists>es s'. exec L s es = Some s' \<and> pc s' = Thrown"
proof (induction "length (source s)" arbitrary: s)
  case 0
  let ?s1 = "s\<lparr>pc := Joining (executing s)\<rparr>"
  have 1: "step L s Next = Some ?s1" using "0.prems"(5) "0.hyps" by simp
  have inv1: "run_inv L items ?s1" using "0.prems"(1) 1 by (rule inv_step)
  have sn1: "inv_snap ?s1" using "0.prems"(1,2) 1 by (rule inv_snap_step)
  have "rejecting ?s1" using inv1 "0.prems"(3,4) by (intro join_rejecting [of L items _ i]) simp_all
  from throw_from_wait [OF this inv1 sn1] obtain es s' where
    "exec L ?s1 es = Some s'" "pc s' = Thrown" by blast
  with 1 have "exec L s (Next # es) = Some s' \<and> pc s' = Thrown" by simp
  then show ?case by blast
next
  case (Suc k)
  then obtain x rest where src: "source s = x # rest" "k = length rest"
    by (cases "source s") auto
  obtain s1 where 1: "step L s Next = Some s1" and s1: "source s1 = rest"
    using Suc.prems(5) src(1) by (auto simp: Let_def)
  have inv1: "run_inv L items s1" using Suc.prems(1) 1 by (rule inv_step)
  have sn1: "inv_snap s1" using Suc.prems(1,2) 1 by (rule inv_snap_step)
  from settled_stays_step(2) [OF 1, of i] Suc.prems(3,4)
  have i1: "i < length (handle s1)" "handle s1 ! i = Rejected" by simp_all
  from next_after_rejection [OF Suc.prems(1,3,4) 1]
  have "\<exists>es s'. exec L s1 es = Some s' \<and> pc s' = Thrown"
  proof
    assume "pc s1 = Pulling"
    moreover have "k = length (source s1)" using src(2) s1 by simp
    ultimately show ?thesis using inv1 sn1 i1 by (intro Suc.hyps(1)) simp_all
  next
    assume "rejecting s1"
    then show ?thesis using inv1 sn1 by (rule throw_from_wait)
  qed
  then obtain es s' where "exec L s1 es = Some s'" "pc s' = Thrown" by blast
  with 1 have "exec L s (Next # es) = Some s' \<and> pc s' = Thrown" by simp
  then show ?case by blast
qed

lemma can_throw:
  assumes inv: "run_inv L items s" and sn: "inv_snap s"
    and i: "i < length (worker s)" "worker s ! i = Rejected"
  shows "\<exists>es s'. exec L s es = Some s' \<and> pc s' = Thrown"
proof -
  have len: "length (worker s) = length (handle s)"
    and a: "\<forall>i < length (handle s). handle s ! i = Pending \<or> handle s ! i = worker s ! i"
    using inv by (simp_all add: run_inv_def inv_log_def inv_exec_def)
  have ih: "i < length (handle s)" using i(1) len by simp
  text \<open>First the reaction to the rejection runs, if it has not.\<close>
  obtain es0 s0 where 0: "exec L s es0 = Some s0" "run_inv L items s0" "inv_snap s0"
    "i < length (handle s0)" "handle s0 ! i = Rejected"
  proof (cases "handle s ! i = Pending")
    case True
    let ?s0 = "s\<lparr>handle := (handle s)[i := Rejected], pc := settled (pc s) i\<rparr>"
    have st: "step L s (Reaction i) = Some ?s0" using True i ih by simp
    have "exec L s [Reaction i] = Some ?s0" using st by simp
    moreover have "run_inv L items ?s0" using inv st by (rule inv_step)
    moreover have "inv_snap ?s0" using inv sn st by (rule inv_snap_step)
    moreover have "i < length (handle ?s0)" "handle ?s0 ! i = Rejected" using ih by simp_all
    ultimately show ?thesis by (rule that)
  next
    case False
    with a ih i(2) have "handle s ! i = Rejected" by auto
    moreover have "exec L s [] = Some s" by simp
    ultimately show ?thesis using inv sn ih by (intro that [of "[]" s])
  qed
  have "\<exists>es s'. exec L s0 es = Some s' \<and> pc s' = Thrown"
  proof (cases "pc s0")
    case Pulling
    with 0 show ?thesis by (intro throw_from_head [of L items s0 i])
  next
    case (Racing snap winner)
    from race_decided [OF 0(2,3,4,5) Racing] obtain k where k: "winner = Some k" by auto
    have "inv_pc L s0" using 0(2) by (simp add: run_inv_def)
    with Racing k have kk: "k < length (handle s0)" "handle s0 ! k \<noteq> Pending"
      by (simp_all add: inv_pc_Racing)
    show ?thesis
    proof (cases "handle s0 ! k = Fulfilled")
      case True
      let ?s1 = "s0\<lparr>pc := Pulling\<rparr>"
      have st: "step L s0 (Wake k) = Some ?s1" using Racing k kk True by simp
      have "run_inv L items ?s1" using 0(2) st by (rule inv_step)
      moreover have "inv_snap ?s1" using 0(2,3) st by (rule inv_snap_step)
      ultimately have "\<exists>es s'. exec L ?s1 es = Some s' \<and> pc s' = Thrown"
        using 0(4,5) by (intro throw_from_head [of L items ?s1 i]) simp_all
      then obtain es s' where "exec L ?s1 es = Some s'" "pc s' = Thrown" by blast
      with st have "exec L s0 (Wake k # es) = Some s' \<and> pc s' = Thrown" by simp
      then show ?thesis by blast
    next
      case False
      with kk have "handle s0 ! k = Rejected" by (cases "handle s0 ! k") simp_all
      with Racing k have "rejecting s0" by (simp add: rejecting_def)
      then show ?thesis using 0(2,3) by (rule throw_from_wait)
    qed
  next
    case (Joining snap)
    from join_rejecting [OF 0(2,4,5) this] show ?thesis using 0(2,3) by (rule throw_from_wait)
  next
    case Returned
    from handle_worker [OF 0(2,4)] 0(5) have "i < length (worker s0)" "worker s0 ! i = Rejected"
      by simp_all
    from rejected_not_Returned [OF 0(2) this] Returned show ?thesis by simp
  next
    case Thrown
    then have "exec L s0 [] = Some s0 \<and> pc s0 = Thrown" by simp
    then show ?thesis by blast
  qed
  then obtain es s' where "exec L s0 es = Some s'" "pc s' = Thrown" by blast
  with exec_then [OF 0(1) this(1)] show ?thesis by blast
qed

subsection \<open>Runs of the runner\<close>

text \<open>
  Three items under limit 2. The first worker rejects and its reaction runs before the
  second item is pulled: the race the body then begins holds a rejected handle and is
  rejected from the start, whatever the second worker does, and the third item is never
  pulled. And the same items with the second worker fulfilling first and the first
  rejecting afterwards, both inside the race: the race was won, the third item is pulled,
  and the next race is rejected.
\<close>

lemma run_race_rejected:
  "concurrent [10, 20, 30 :: nat] (Some 2) [Next, Settle 0 False, Reaction 0, Next]
   = Some \<lparr>source = [30], invoked = [10, 20], worker = [Rejected, Pending],
           handle = [Rejected, Pending], executing = [0, 1], pc = Racing [0, 1] (Some 0)\<rparr>"
  "concurrent [10, 20, 30 :: nat] (Some 2)
     [Next, Settle 0 False, Reaction 0, Next, Settle 1 True, Reaction 1, Wake 1] = None"
  "concurrent [10, 20, 30 :: nat] (Some 2)
     [Next, Settle 0 False, Reaction 0, Next, Settle 1 True, Reaction 1, Wake 0]
   = Some \<lparr>source = [30], invoked = [10, 20], worker = [Rejected, Fulfilled],
           handle = [Rejected, Fulfilled], executing = [0], pc = Thrown\<rparr>"
  by (simp_all add: concurrent_def entered_def splice1_def indexOf_def first_settled_def Let_def)

lemma run_race_won:
  "concurrent [10, 20, 30 :: nat] (Some 2)
     [Next, Next, Settle 1 True, Reaction 1, Settle 0 False, Reaction 0, Wake 1, Next]
   = Some \<lparr>source = [], invoked = [10, 20, 30], worker = [Rejected, Fulfilled, Pending],
           handle = [Rejected, Fulfilled, Pending], executing = [0, 2],
           pc = Racing [0, 2] (Some 0)\<rparr>"
  by (simp add: concurrent_def entered_def splice1_def indexOf_def first_settled_def Let_def)

lemma run_handle_rejected:
  "concurrent [10 :: nat] None [Next, Settle 0 False, Reaction 0]
   = Some \<lparr>source = [], invoked = [10], worker = [Rejected],
           handle = [Rejected], executing = [0], pc = Pulling\<rparr>"
  "concurrent [10 :: nat] None ([Next, Settle 0 False, Reaction 0] @ [] @ [Next])
   = Some \<lparr>source = [], invoked = [10], worker = [Rejected],
           handle = [Rejected], executing = [0], pc = Joining [0]\<rparr>"
  by (simp_all add: concurrent_def entered_def splice1_def indexOf_def first_settled_def Let_def)

subsection \<open>Claims on the runner\<close>

lemma later_wait_rejects:
  assumes inv: "run_inv L items s" and i: "i < length (handle s)" "handle s ! i = Rejected"
    and ex: "exec L s (es @ [Next]) = Some s'"
  shows "pc s' = Pulling \<or> rejecting s'"
proof -
  from ex obtain s1 where 1: "exec L s es = Some s1" and 2: "step L s1 Next = Some s'"
    by (auto simp: exec_append split: option.splits)
  have "run_inv L items s1" using inv 1 by (rule inv_exec_run)
  moreover from settled_stays(2) [OF 1, of i] i
  have "i < length (handle s1)" "handle s1 ! i = Rejected" by simp_all
  ultimately show ?thesis using 2 by (rule next_after_rejection)
qed

text \<open>
  C1, as the code has it. For every finite source \<open>items\<close>, every limit (default 200) and
  every order of jobs, at every instant of the run: the worker has been invoked on exactly
  the items pulled so far, once each and in source order, the rest of the source being
  untouched; the number of unresolved invocations is at most the limit, or 1 for a limit
  below 1; if the returned promise is fulfilled, then the source is exhausted and the
  worker was invoked once on each of the items, every invocation having fulfilled; and
  if it is rejected, then an invocation has rejected.

  As long as no invocation has rejected, the run can be continued, its pending
  invocations fulfilling, until the returned promise is fulfilled. Once an invocation has
  rejected the returned promise never fulfils, and the run can be continued until it is
  rejected. Once the handle of the invocation has rejected too, a race is not left
  undecided, the final \<^verbatim>\<open>Promise.all\<close> is rejected, and so is every wait the body begins
  from then on; and once the promise the body waits for is rejected, no further item is
  pulled, so that items left in the source are never processed. The claim's "exactly K
  invocations" and "settles only after" hold of the runs that end in fulfilment, not of a
  run that a rejection ends.
\<close>

theorem concurrent_bound_and_completion:
  assumes "concurrent items limit schedule = Some s"
  shows "invoked s @ source s = items \<and>
         int (unresolved s) \<le> max (case limit of None \<Rightarrow> 200 | Some l \<Rightarrow> l) 1 \<and>
         (pc s = Returned \<longrightarrow>
            source s = [] \<and> invoked s = items \<and> worker s = replicate (length items) Fulfilled) \<and>
         (pc s = Thrown \<longrightarrow> Rejected \<in> set (worker s)) \<and>
         (Rejected \<notin> set (worker s) \<longrightarrow>
            (\<exists>es s'. concurrent items limit (schedule @ es) = Some s' \<and> pc s' = Returned)) \<and>
         (Rejected \<in> set (worker s) \<longrightarrow>
            (\<forall>es s'. concurrent items limit (schedule @ es) = Some s' \<longrightarrow> pc s' \<noteq> Returned) \<and>
            (\<exists>es s'. concurrent items limit (schedule @ es) = Some s' \<and> pc s' = Thrown)) \<and>
         (Rejected \<in> set (handle s) \<longrightarrow>
            (\<forall>snap winner. pc s = Racing snap winner \<longrightarrow> winner \<noteq> None) \<and>
            (\<forall>snap. pc s = Joining snap \<longrightarrow> rejecting s) \<and>
            (\<forall>es s'. concurrent items limit (schedule @ es @ [Next]) = Some s' \<longrightarrow>
               pc s' = Pulling \<or> rejecting s')) \<and>
         (rejecting s \<longrightarrow>
            (\<forall>es s'. concurrent items limit (schedule @ es) = Some s' \<longrightarrow>
               rejecting s' \<and> invoked s' = invoked s \<and> source s' = source s))"
proof -
  let ?L = "case limit of None \<Rightarrow> 200 | Some l \<Rightarrow> l"
  note i = concurrent_state(1) [OF assms] and sn = concurrent_state(2) [OF assms]
    and app = concurrent_append [OF assms]
  from i have lg: "inv_log items s" and ex: "inv_exec s" and p: "inv_pc ?L s"
    by (simp_all add: run_inv_def)
  have len: "length (worker s) = length (handle s)" using lg by (simp add: inv_log_def)
  have 1: "invoked s @ source s = items" using lg by (simp add: inv_log_def)
  have "unresolved s \<le> length (executing s)" using lg ex by (rule unresolved_le_executing)
  moreover have "int (length (executing s)) \<le> max ?L 1" using p by (simp add: inv_pc_def)
  ultimately have 2: "int (unresolved s) \<le> max ?L 1" by linarith
  have 3: "source s = [] \<and> invoked s = items \<and> worker s = replicate (length items) Fulfilled"
    if r: "pc s = Returned"
  proof -
    from p r have src: "source s = []" and emp: "executing s = []" by (simp_all add: inv_pc_def)
    with 1 have iv: "invoked s = items" by simp
    have len: "length (worker s) = length items" "length (handle s) = length items"
      using lg iv by (simp_all add: inv_log_def)
    have e: "set (executing s) = {i. i < length (handle s) \<and> handle s ! i \<noteq> Fulfilled}" and
         a: "\<forall>i < length (handle s). handle s ! i = Pending \<or> handle s ! i = worker s ! i"
      using ex by (simp_all add: inv_exec_def)
    have h: "handle s ! i = Fulfilled" if "i < length items" for i
      using e emp that len by auto
    have "worker s ! i = Fulfilled" if "i < length items" for i
      using a h[OF that] that len by auto
    then have "worker s = replicate (length items) Fulfilled"
      using len by (intro nth_equalityI) simp_all
    with src iv show ?thesis by simp
  qed
  have hw: "Rejected \<in> set (worker s)" if "Rejected \<in> set (handle s)"
  proof -
    from that obtain k where k: "k < length (handle s)" "handle s ! k = Rejected"
      by (auto simp: in_set_conv_nth)
    with handle_worker [OF i, of k] have "k < length (worker s)" "worker s ! k = Rejected"
      by simp_all
    then show ?thesis by (metis nth_mem)
  qed
  have 4: "Rejected \<in> set (worker s)" if "pc s = Thrown"
    using sn that hw by (simp add: inv_snap_def)
  have 5: "\<exists>es s'. concurrent items limit (schedule @ es) = Some s' \<and> pc s' = Returned"
    if "Rejected \<notin> set (worker s)"
    using assms that by (rule concurrent_can_complete)
  have 6: "(\<forall>es s'. concurrent items limit (schedule @ es) = Some s' \<longrightarrow> pc s' \<noteq> Returned) \<and>
           (\<exists>es s'. concurrent items limit (schedule @ es) = Some s' \<and> pc s' = Thrown)"
    if "Rejected \<in> set (worker s)"
  proof -
    from that obtain k where k: "k < length (worker s)" "worker s ! k = Rejected"
      by (auto simp: in_set_conv_nth)
    have "pc s' \<noteq> Returned" if c: "concurrent items limit (schedule @ es) = Some s'" for es s'
    proof -
      from c have e: "exec ?L s es = Some s'" by (simp add: app)
      from settled_stays(1) [OF e, of k] k
      have "k < length (worker s')" "worker s' ! k = Rejected" by simp_all
      with concurrent_state(1) [OF c] show ?thesis by (intro rejected_not_Returned)
    qed
    moreover from can_throw [OF i sn k] have
      "\<exists>es s'. concurrent items limit (schedule @ es) = Some s' \<and> pc s' = Thrown"
      by (simp add: app)
    ultimately show ?thesis by blast
  qed
  have 7: "(\<forall>snap winner. pc s = Racing snap winner \<longrightarrow> winner \<noteq> None) \<and>
           (\<forall>snap. pc s = Joining snap \<longrightarrow> rejecting s) \<and>
           (\<forall>es s'. concurrent items limit (schedule @ es @ [Next]) = Some s' \<longrightarrow>
               pc s' = Pulling \<or> rejecting s')"
    if "Rejected \<in> set (handle s)"
  proof -
    from that obtain k where k: "k < length (handle s)" "handle s ! k = Rejected"
      by (auto simp: in_set_conv_nth)
    have "winner \<noteq> None" if "pc s = Racing snap winner" for snap winner
      using race_decided [OF i sn k that] by simp
    moreover have "rejecting s" if "pc s = Joining snap" for snap
      using i k that by (rule join_rejecting)
    moreover have "pc s' = Pulling \<or> rejecting s'"
      if "concurrent items limit (schedule @ es @ [Next]) = Some s'" for es s'
      using i k that [unfolded app] by (rule later_wait_rejects)
    ultimately show ?thesis by blast
  qed
  have 8: "\<forall>es s'. concurrent items limit (schedule @ es) = Some s' \<longrightarrow>
               rejecting s' \<and> invoked s' = invoked s \<and> source s' = source s"
    if "rejecting s"
    using rejecting_exec [OF that i] by (simp add: app)
  show ?thesis using 1 2 3 4 5 6 7 8 by blast
qed

theorem concurrent_bound_and_completion_witness:
  "concurrent [10, 20 :: nat] (Some 1)
     [Next, Settle 0 True, Reaction 0, Wake 0, Next, Settle 1 True, Reaction 1, Wake 1, Next, Finish]
   = Some \<lparr>source = [], invoked = [10, 20], worker = [Fulfilled, Fulfilled],
           handle = [Fulfilled, Fulfilled], executing = [], pc = Returned\<rparr> \<and>
   int (unresolved \<lparr>source = [], invoked = [10, 20 :: nat], worker = [Fulfilled, Fulfilled],
           handle = [Fulfilled, Fulfilled], executing = [], pc = Returned\<rparr>) \<le> max 1 1 \<and>
   [Fulfilled, Fulfilled] = replicate (length [10, 20 :: nat]) Fulfilled \<and>
   Rejected \<notin> set [Fulfilled, Fulfilled] \<and>
   concurrent [10, 20, 30 :: nat] (Some 2) [Next, Settle 0 False, Reaction 0, Next]
   = Some \<lparr>source = [30], invoked = [10, 20], worker = [Rejected, Pending],
           handle = [Rejected, Pending], executing = [0, 1], pc = Racing [0, 1] (Some 0)\<rparr> \<and>
   Rejected \<in> set [Rejected, Pending] \<and>
   rejecting \<lparr>source = [30 :: nat], invoked = [10, 20], worker = [Rejected, Pending],
           handle = [Rejected, Pending], executing = [0, 1], pc = Racing [0, 1] (Some 0)\<rparr> \<and>
   concurrent [10, 20, 30 :: nat] (Some 2)
     ([Next, Settle 0 False, Reaction 0, Next] @ [Settle 1 True, Reaction 1, Wake 0])
   = Some \<lparr>source = [30], invoked = [10, 20], worker = [Rejected, Fulfilled],
           handle = [Rejected, Fulfilled], executing = [0], pc = Thrown\<rparr>"
proof -
  note ok = concurrent_bound_and_completion [OF run_ok]
  note rj = concurrent_bound_and_completion [OF run_race_rejected(1)]
  from ok have 1: "[Fulfilled, Fulfilled] = replicate (length [10, 20 :: nat]) Fulfilled" by simp
  have r: "rejecting \<lparr>source = [30 :: nat], invoked = [10, 20], worker = [Rejected, Pending],
           handle = [Rejected, Pending], executing = [0, 1], pc = Racing [0, 1] (Some 0)\<rparr>"
    by (simp add: rejecting_def)
  with rj run_race_rejected(3)
  have "invoked \<lparr>source = [30 :: nat], invoked = [10, 20], worker = [Rejected, Fulfilled],
           handle = [Rejected, Fulfilled], executing = [0], pc = Thrown\<rparr> = [10, 20]"
    by simp
  with 1 r run_ok run_race_rejected show ?thesis by (simp add: unresolved_def)
qed

text \<open>
  C1 as stated fails on a worker that rejects and on a limit below 1. Items 10 and 20
  under limit 1: the worker's promise for 10 rejects, the race rejects, and \<open>concurrent\<close>
  has thrown with one invocation made and 20 still in the source. Under limit 0 the first
  invocation is unresolved, one more than the limit.
\<close>

theorem concurrent_rejection_stops_run:
  "map_option (\<lambda>s. (pc s, invoked s, source s))
     (concurrent [10, 20 :: nat] (Some 1) [Next, Settle 0 False, Reaction 0, Wake 0])
     = Some (Thrown, [10], [20]) \<and>
   map_option unresolved (concurrent [10, 20 :: nat] (Some 0) [Next]) = Some 1"
  by (simp add: run_rejected run_zero unresolved_def)

text \<open>
  C2, as the code has it. In every run and for every started invocation: its handle is in
  \<open>executing\<close> exactly as long as the handle has not fulfilled; a handle fulfils only
  after its worker's promise did, through the reaction attached at the start, which removes
  it, and rejects only after its worker's promise did. The handle of an invocation that
  has rejected is in the array for the rest of the run, the reaction having no rejection
  callback. Once the handle has rejected it is among the handles of the race or of the
  \<^verbatim>\<open>Promise.all\<close> the body waits for, if it waits; such a race has been decided (by this
  handle or by one that settled before it), such a \<^verbatim>\<open>Promise.all\<close> is rejected, and every
  wait the body begins later in the run is rejected from the start.
\<close>

theorem concurrent_deregisters_on_fulfilment:
  assumes "concurrent items limit schedule = Some s" and "i < length (invoked s)"
  shows "(i \<in> set (executing s) \<longleftrightarrow> handle s ! i \<noteq> Fulfilled) \<and>
         (handle s ! i = Fulfilled \<longrightarrow> worker s ! i = Fulfilled) \<and>
         (handle s ! i = Rejected \<longrightarrow> worker s ! i = Rejected) \<and>
         (worker s ! i = Rejected \<longrightarrow>
            (\<forall>es s'. concurrent items limit (schedule @ es) = Some s' \<longrightarrow>
               worker s' ! i = Rejected \<and> handle s' ! i \<noteq> Fulfilled \<and> i \<in> set (executing s'))) \<and>
         (handle s ! i = Rejected \<longrightarrow>
            (\<forall>snap winner. pc s = Racing snap winner \<longrightarrow> i \<in> set snap \<and> winner \<noteq> None) \<and>
            (\<forall>snap. pc s = Joining snap \<longrightarrow> i \<in> set snap \<and> rejecting s) \<and>
            (\<forall>es s'. concurrent items limit (schedule @ es @ [Next]) = Some s' \<longrightarrow>
               pc s' = Pulling \<or> rejecting s'))"
proof -
  let ?L = "case limit of None \<Rightarrow> 200 | Some l \<Rightarrow> l"
  note inv = concurrent_state(1) [OF assms(1)] and sn = concurrent_state(2) [OF assms(1)]
    and app = concurrent_append [OF assms(1)]
  from inv have lg: "inv_log items s" and ex: "inv_exec s" by (simp_all add: run_inv_def)
  have len: "i < length (handle s)" "i < length (worker s)"
    using lg assms(2) by (simp_all add: inv_log_def)
  have e: "set (executing s) = {i. i < length (handle s) \<and> handle s ! i \<noteq> Fulfilled}" and
       a: "\<forall>i < length (handle s). handle s ! i = Pending \<or> handle s ! i = worker s ! i"
    using ex by (simp_all add: inv_exec_def)
  have 1: "i \<in> set (executing s) \<longleftrightarrow> handle s ! i \<noteq> Fulfilled" using len by (simp add: e)
  have 2: "handle s ! i = Pending \<or> handle s ! i = worker s ! i" using a len by blast
  have 3: "worker s' ! i = Rejected \<and> handle s' ! i \<noteq> Fulfilled \<and> i \<in> set (executing s')"
    if w: "worker s ! i = Rejected" and c: "concurrent items limit (schedule @ es) = Some s'"
    for es s'
  proof -
    from c have "exec ?L s es = Some s'" by (simp add: app)
    from settled_stays(1) [OF this, of i] len w
    have k: "i < length (worker s')" "worker s' ! i = Rejected" by simp_all
    with rejected_in_executing [OF concurrent_state(1) [OF c] k] show ?thesis by simp
  qed
  have 4: "(\<forall>snap winner. pc s = Racing snap winner \<longrightarrow> i \<in> set snap \<and> winner \<noteq> None) \<and>
           (\<forall>snap. pc s = Joining snap \<longrightarrow> i \<in> set snap \<and> rejecting s) \<and>
           (\<forall>es s'. concurrent items limit (schedule @ es @ [Next]) = Some s' \<longrightarrow>
               pc s' = Pulling \<or> rejecting s')"
    if h: "handle s ! i = Rejected"
  proof -
    have mem: "i \<in> set (executing s)" using 1 h by simp
    have "i \<in> set snap \<and> winner \<noteq> None" if "pc s = Racing snap winner" for snap winner
      using inv sn len(1) h that by (rule race_decided)
    moreover have "i \<in> set snap \<and> rejecting s" if p: "pc s = Joining snap" for snap
    proof -
      have "set (executing s) \<subseteq> set snap" using inv p by (simp add: run_inv_def inv_pc_def)
      with mem join_rejecting [OF inv len(1) h p] show ?thesis by auto
    qed
    moreover have "pc s' = Pulling \<or> rejecting s'"
      if "concurrent items limit (schedule @ es @ [Next]) = Some s'" for es s'
      using inv len(1) h that [unfolded app] by (rule later_wait_rejects)
    ultimately show ?thesis by blast
  qed
  show ?thesis using 1 2 3 4 by auto
qed

theorem concurrent_deregisters_on_fulfilment_witness:
  "concurrent [10 :: nat] None [Next, Settle 0 True, Reaction 0]
   = Some \<lparr>source = [], invoked = [10], worker = [Fulfilled],
           handle = [Fulfilled], executing = [], pc = Pulling\<rparr> \<and>
   (0 :: nat) < length [10 :: nat] \<and> 0 \<notin> set ([] :: nat list) \<and> [Fulfilled] ! 0 = Fulfilled \<and>
   concurrent [10 :: nat] None [Next, Settle 0 False, Reaction 0]
   = Some \<lparr>source = [], invoked = [10], worker = [Rejected],
           handle = [Rejected], executing = [0], pc = Pulling\<rparr> \<and>
   [Rejected] ! 0 = Rejected \<and> 0 \<in> set [0 :: nat] \<and>
   concurrent [10 :: nat] None ([Next, Settle 0 False, Reaction 0] @ [] @ [Next])
   = Some \<lparr>source = [], invoked = [10], worker = [Rejected],
           handle = [Rejected], executing = [0], pc = Joining [0]\<rparr> \<and>
   rejecting \<lparr>source = [], invoked = [10 :: nat], worker = [Rejected],
           handle = [Rejected], executing = [0], pc = Joining [0]\<rparr>"
proof -
  have r: "concurrent [10 :: nat] None [Next, Settle 0 True, Reaction 0]
     = Some \<lparr>source = [], invoked = [10], worker = [Fulfilled],
             handle = [Fulfilled], executing = [], pc = Pulling\<rparr>"
    by (simp add: concurrent_def entered_def splice1_def indexOf_def Let_def)
  from concurrent_deregisters_on_fulfilment [OF r, of 0]
  have 1: "0 \<notin> set ([] :: nat list)" by simp
  let ?S = "\<lparr>source = [], invoked = [10 :: nat], worker = [Rejected],
           handle = [Rejected], executing = [0], pc = Pulling\<rparr>"
  have h: "0 < length (invoked ?S)" "handle ?S ! 0 = Rejected" by simp_all
  note t = concurrent_deregisters_on_fulfilment [OF run_handle_rejected(1) h(1)]
  from t [THEN conjunct2, THEN conjunct2, THEN conjunct2, THEN conjunct2, THEN mp, OF h(2),
          THEN conjunct2, THEN conjunct2, rule_format, OF run_handle_rejected(2)]
  have 2: "rejecting \<lparr>source = [], invoked = [10 :: nat], worker = [Rejected],
           handle = [Rejected], executing = [0], pc = Joining [0]\<rparr>"
    by simp
  show ?thesis using 1 2 r run_handle_rejected by simp
qed

text \<open>
  C2 as stated fails on rejection. One item under the default limit: its worker's promise
  rejects, the reaction job runs, the source is exhausted, \<^verbatim>\<open>Promise.all\<close> rejects and
  \<open>concurrent\<close> has thrown; handle 0 is still in \<open>executing\<close>.
\<close>

theorem concurrent_rejected_handle_stays:
  "map_option (\<lambda>s. (pc s, worker s, handle s, executing s))
     (concurrent [10 :: nat] None [Next, Settle 0 False, Reaction 0, Next, Wake 0])
     = Some (Thrown, [Rejected], [Rejected], [0])"
  by (simp add: run_rejected_default)

text \<open>
  C10. At every instant of every run the invocations made so far are, in order, the first
  items of the source, and what the source has yet to yield is the rest: the invocation
  for an item is started in the job that pulls it, before the next item is pulled, so
  invocations begin in the order the source yields.
\<close>

theorem concurrent_starts_in_source_order:
  assumes "concurrent items limit schedule = Some s"
  shows "invoked s = take (length (invoked s)) items \<and> source s = drop (length (invoked s)) items"
proof -
  have "run_inv (case limit of None \<Rightarrow> 200 | Some l \<Rightarrow> l) items s"
    using assms by (rule inv_concurrent)
  then have "invoked s @ source s = items" by (simp add: run_inv_def inv_log_def)
  then show ?thesis by (metis append_eq_conv_conj)
qed

theorem concurrent_starts_in_source_order_witness:
  "concurrent [10, 20, 30 :: nat] (Some 2) [Next, Next, Settle 1 True, Reaction 1, Wake 1]
   = Some \<lparr>source = [30], invoked = [10, 20], worker = [Pending, Fulfilled],
           handle = [Pending, Fulfilled], executing = [0], pc = Pulling\<rparr> \<and>
   [10, 20 :: nat] = take (length [10, 20 :: nat]) [10, 20, 30] \<and>
   [30 :: nat] = drop (length [10, 20 :: nat]) [10, 20, 30]"
proof -
  have r: "concurrent [10, 20, 30 :: nat] (Some 2) [Next, Next, Settle 1 True, Reaction 1, Wake 1]
     = Some \<lparr>source = [30], invoked = [10, 20], worker = [Pending, Fulfilled],
             handle = [Pending, Fulfilled], executing = [0], pc = Pulling\<rparr>"
    by (simp add: concurrent_def entered_def splice1_def indexOf_def first_settled_def Let_def)
  show ?thesis using concurrent_starts_in_source_order [OF r] r by simp
qed

section \<open>Properties of the number renderings\<close>

text \<open>\<open>digits\<close> is unfolded by hand: its equation rewrites its own right-hand side.\<close>

declare digits.simps [simp del]

lemma of_char_digit_char: "d < 10 \<Longrightarrow> (of_char (digit_char d) :: nat) = 48 + d"
proof -
  assume "d < 10"
  then have "d = 0 \<or> d = 1 \<or> d = 2 \<or> d = 3 \<or> d = 4 \<or> d = 5 \<or> d = 6 \<or> d = 7 \<or> d = 8 \<or> d = 9"
    by arith
  then show ?thesis by (elim disjE) (simp_all add: digit_char_def)
qed

lemma is_decimal_digit_char: "d < 10 \<Longrightarrow> is_decimal (digit_char d)"
  by (simp add: is_decimal_def of_char_digit_char)

lemma digit_value_decimal: "is_decimal c \<Longrightarrow> digit_value c = Some (of_char c - 48)"
  by (simp add: is_decimal_def digit_value_def Let_def)

lemma digit_value_digit_char: "d < 10 \<Longrightarrow> digit_value (digit_char d) = Some d"
  by (simp add: digit_value_decimal is_decimal_digit_char of_char_digit_char)

lemma decimal_is_digit: "is_decimal c \<Longrightarrow> is_digit_of 10 c"
  by (auto simp: is_digit_of_def digit_value_decimal is_decimal_def)

lemma decimal_not_white: "is_decimal c \<Longrightarrow> \<not> is_white c"
  by (auto simp: is_decimal_def is_white_def)

lemma decimal_not_sign: "is_decimal c \<Longrightarrow> c \<noteq> CHR ''-'' \<and> c \<noteq> CHR ''+'' \<and> c \<noteq> CHR ''x'' \<and> c \<noteq> CHR ''X''"
  by (auto simp: is_decimal_def)

lemma digits_decimal: "list_all is_decimal (digits n)"
proof (induction n rule: digits.induct)
  case (1 n)
  show ?case
  proof (cases "n < 10")
    case True
    then show ?thesis by (simp add: digits.simps [of n] is_decimal_digit_char)
  next
    case False
    with 1 have "list_all is_decimal (digits (n div 10))" by simp
    with False show ?thesis by (simp add: digits.simps [of n] is_decimal_digit_char)
  qed
qed

lemma digits_nonempty: "digits n \<noteq> []"
  by (subst digits.simps) simp

lemma digits_value_snoc:
  "digits_value r (z @ [c]) = digits_value r z * r + (case digit_value c of Some d \<Rightarrow> d | None \<Rightarrow> 0)"
  by (simp add: digits_value_def)

lemma digits_value_digits: "digits_value 10 (digits n) = n"
proof (induction n rule: digits.induct)
  case (1 n)
  show ?case
  proof (cases "n < 10")
    case True
    then show ?thesis
      by (simp add: digits.simps [of n] digits_value_def digit_value_digit_char)
  next
    case False
    with 1 have "digits_value 10 (digits (n div 10)) = n div 10" by simp
    with False show ?thesis
      by (simp add: digits.simps [of n] digits_value_snoc digit_value_digit_char)
  qed
qed

lemma decimal_string_facts:
  assumes "list_all is_decimal s" "s \<noteq> []"
  shows "dropWhile is_white s = s" "strip_sign s = (False, s)" "strip_radix s = (10, s)"
    "takeWhile (is_digit_of 10) s = s"
proof -
  obtain c cs where d: "s = c # cs" using assms(2) by (cases s) auto
  have all: "list_all is_decimal (c # cs)" using assms(1) d by simp
  then have c: "is_decimal c" by simp
  show "dropWhile is_white s = s" using c by (simp add: d decimal_not_white)
  show "strip_sign s = (False, s)"
    using decimal_not_sign [OF c] by (simp add: d strip_sign_def)
  show "strip_radix s = (10, s)"
  proof (cases cs)
    case Nil then show ?thesis by (simp add: d strip_radix_def)
  next
    case (Cons c' cs')
    with all have "is_decimal c'" by simp
    with Cons show ?thesis using decimal_not_sign [of c'] by (simp add: d strip_radix_def)
  qed
  show "takeWhile (is_digit_of 10) s = s"
    using assms(1) by (intro takeWhile_eq_all_conv [THEN iffD2]) (auto simp: list_all_iff decimal_is_digit)
qed

lemma parseInt_decimal:
  assumes "list_all is_decimal s" "s \<noteq> []"
  shows "parseInt s = Some (int (digits_value 10 s))"
  by (simp add: parseInt_def decimal_string_facts [OF assms] assms(2))

lemma parseInt_minus_decimal:
  assumes "list_all is_decimal s" "s \<noteq> []"
  shows "parseInt (CHR ''-'' # s) = Some (- int (digits_value 10 s))"
proof -
  have w: "dropWhile is_white (CHR ''-'' # s) = CHR ''-'' # s" by (simp add: is_white_def)
  have g: "strip_sign (CHR ''-'' # s) = (True, s)" by (simp add: strip_sign_def)
  show ?thesis
    unfolding parseInt_def w g
    by (simp add: decimal_string_facts(3,4) [OF assms] assms(2))
qed

lemma parseInt_number_toString: "parseInt (number_toString n) = Some n"
proof (cases "n < 0")
  case False
  then show ?thesis
    by (simp add: number_toString_def parseInt_decimal digits_decimal digits_nonempty digits_value_digits)
next
  case True
  then show ?thesis
    by (simp add: number_toString_def parseInt_minus_decimal digits_decimal digits_nonempty digits_value_digits)
qed

lemma number_toString_nonempty: "number_toString n \<noteq> []"
  by (simp add: number_toString_def digits_nonempty)

section \<open>Properties of the upgrade notifier\<close>

lemma cache_fresh_iff:
  "cache_fresh interval now \<longleftrightarrow>
     (\<exists>s t. interval = Some s \<and> s \<noteq> [] \<and> parseInt s = Some t \<and> now - t < expires)"
  by (auto simp: cache_fresh_def split: option.splits)

lemma cache_fresh_stored:
  "cache_fresh (Some (number_toString t)) now \<longleftrightarrow> now < t + expires"
  by (auto simp: cache_fresh_def parseInt_number_toString number_toString_nonempty)

lemma mustNotifyUpgrade_local:
  "take 6 (getCurrentVersion (pathname e)) = ''local '' \<Longrightarrow> mustNotifyUpgrade e w = (Inr None, w)"
  by (simp add: mustNotifyUpgrade_def)

lemma mustNotifyUpgrade_fresh:
  "cache_fresh (localStorage w ''lume-upgrade'') (now1 e) \<Longrightarrow> mustNotifyUpgrade e w = (Inr None, w)"
  by (simp add: mustNotifyUpgrade_def Let_def)

lemma mustNotifyUpgrade_check:
  assumes "take 6 (getCurrentVersion (pathname e)) \<noteq> ''local ''"
      and "\<not> cache_fresh (localStorage w ''lume-upgrade'') (now1 e)"
  shows "snd (mustNotifyUpgrade e w) =
           w\<lparr>localStorage := (localStorage w)(''lume-upgrade'' \<mapsto> number_toString (now2 e)),
             fetched := fetched w @ [endpoint (pathname e)]\<rparr>"
    and "response e (endpoint (pathname e)) = Inl err \<Longrightarrow> fst (mustNotifyUpgrade e w) = Inl err"
proof -
  show "snd (mustNotifyUpgrade e w) =
           w\<lparr>localStorage := (localStorage w)(''lume-upgrade'' \<mapsto> number_toString (now2 e)),
             fetched := fetched w @ [endpoint (pathname e)]\<rparr>"
  proof (cases "stable_version (getCurrentVersion (pathname e))")
    case True
    with assms show ?thesis
      by (simp add: mustNotifyUpgrade_def Let_def endpoint_def getLatestVersion_def split: sum.splits)
  next
    case False
    with assms show ?thesis
      by (simp add: mustNotifyUpgrade_def Let_def endpoint_def getLatestDevelopmentVersion_def
          split: sum.splits)
  qed
  show "fst (mustNotifyUpgrade e w) = Inl err" if "response e (endpoint (pathname e)) = Inl err"
  proof (cases "stable_version (getCurrentVersion (pathname e))")
    case True
    with assms that show ?thesis
      by (simp add: mustNotifyUpgrade_def Let_def endpoint_def getLatestVersion_def)
  next
    case False
    with assms that show ?thesis
      by (simp add: mustNotifyUpgrade_def Let_def endpoint_def getLatestDevelopmentVersion_def)
  qed
qed

lemma calls_fresh:
  "\<forall>e \<in> set es. cache_fresh (localStorage w ''lume-upgrade'') (now1 e) \<Longrightarrow> calls es w = w"
  by (induction es) (simp_all add: calls_def mustNotifyUpgrade_fresh)

subsection \<open>Two calls 25 hours after a recorded check\<close>

text \<open>
  The stored timestamp is 0 and the clock reads 90000000 ms. A copy installed as
  \<^verbatim>\<open>lume@v1.2.0\<close> whose fetch fails, and a local copy.
\<close>

lemma example_check_after_25h:
  "mustNotifyUpgrade
     \<lparr>pathname = ''/x/lume@v1.2.0/'', now1 = 90000000, now2 = 90000001,
      response = (\<lambda>u. Inl NetworkError)\<rparr>
     \<lparr>localStorage = [''lume-upgrade'' \<mapsto> ''0''], fetched = []\<rparr>
   = (Inl NetworkError,
      \<lparr>localStorage = [''lume-upgrade'' \<mapsto> ''90000001''],
       fetched = [''https://cdn.deno.land/lume/meta/versions.json'']\<rparr>)"
  by (simp add: mustNotifyUpgrade_def getCurrentVersion_def stable_version_def is_decimal_def
      cache_fresh_def parseInt_def strip_sign_def strip_radix_def is_white_def is_digit_of_def
      digit_value_def digits_value_def expires_def number_toString_def digits.simps digit_char_def
      getLatestVersion_def Let_def)

lemma example_local:
  "mustNotifyUpgrade
     \<lparr>pathname = ''/home/me/lume/'', now1 = 90000000, now2 = 90000001,
      response = (\<lambda>u. Inr ''v1.3.0'')\<rparr>
     \<lparr>localStorage = [''lume-upgrade'' \<mapsto> ''0''], fetched = []\<rparr>
   = (Inr None, \<lparr>localStorage = [''lume-upgrade'' \<mapsto> ''0''], fetched = []\<rparr>)"
  by (simp add: mustNotifyUpgrade_def getCurrentVersion_def)

subsection \<open>Claim on the upgrade notifier\<close>

text \<open>
  C4, as the code has it. If a timestamp is stored, is not empty, parses, and the clock is
  less than 24 hours past it, \<open>mustNotifyUpgrade\<close> returns none and leaves the world as it
  is: no network call. A local copy does the same whatever is stored. Otherwise, for a
  copy that is not local, the call stores the clock's reading and fetches exactly one URL,
  and the stored timestamp is there whatever the fetch answers: when the fetch fails the
  call fails with its error, and any series of later calls, each made less than 24 hours
  after the stored reading, leaves the world as it is, so that no second fetch falls in
  the window.
\<close>

theorem mustNotifyUpgrade_caching:
  "(localStorage w ''lume-upgrade'' = Some s \<and> s \<noteq> [] \<and> parseInt s = Some t \<and>
      now1 e - t < expires \<longrightarrow>
      mustNotifyUpgrade e w = (Inr None, w)) \<and>
   (take 6 (getCurrentVersion (pathname e)) = ''local '' \<longrightarrow>
      mustNotifyUpgrade e w = (Inr None, w)) \<and>
   (take 6 (getCurrentVersion (pathname e)) \<noteq> ''local '' \<and>
    \<not> cache_fresh (localStorage w ''lume-upgrade'') (now1 e) \<longrightarrow>
      snd (mustNotifyUpgrade e w) =
        w\<lparr>localStorage := (localStorage w)(''lume-upgrade'' \<mapsto> number_toString (now2 e)),
          fetched := fetched w @ [endpoint (pathname e)]\<rparr> \<and>
      (response e (endpoint (pathname e)) = Inl err \<longrightarrow> fst (mustNotifyUpgrade e w) = Inl err) \<and>
      ((\<forall>e' \<in> set es. now1 e' - now2 e < expires) \<longrightarrow>
         calls es (snd (mustNotifyUpgrade e w)) = snd (mustNotifyUpgrade e w)))"
proof (intro conjI impI)
  assume "localStorage w ''lume-upgrade'' = Some s \<and> s \<noteq> [] \<and> parseInt s = Some t \<and>
      now1 e - t < expires"
  then have "cache_fresh (localStorage w ''lume-upgrade'') (now1 e)"
    by (auto simp: cache_fresh_iff)
  then show "mustNotifyUpgrade e w = (Inr None, w)" by (rule mustNotifyUpgrade_fresh)
next
  assume "take 6 (getCurrentVersion (pathname e)) = ''local ''"
  then show "mustNotifyUpgrade e w = (Inr None, w)" by (rule mustNotifyUpgrade_local)
next
  assume a: "take 6 (getCurrentVersion (pathname e)) \<noteq> ''local '' \<and>
    \<not> cache_fresh (localStorage w ''lume-upgrade'') (now1 e)"
  then show w': "snd (mustNotifyUpgrade e w) =
        w\<lparr>localStorage := (localStorage w)(''lume-upgrade'' \<mapsto> number_toString (now2 e)),
          fetched := fetched w @ [endpoint (pathname e)]\<rparr>"
    by (simp add: mustNotifyUpgrade_check)
  {
    assume "response e (endpoint (pathname e)) = Inl err"
    with a show "fst (mustNotifyUpgrade e w) = Inl err" by (simp add: mustNotifyUpgrade_check)
  }
  {
    assume later: "\<forall>e' \<in> set es. now1 e' - now2 e < expires"
    have "\<forall>e' \<in> set es. cache_fresh (localStorage (snd (mustNotifyUpgrade e w)) ''lume-upgrade'') (now1 e')"
    proof
      fix e' assume "e' \<in> set es"
      with later have "now1 e' < now2 e + expires" by auto
      then show "cache_fresh (localStorage (snd (mustNotifyUpgrade e w)) ''lume-upgrade'') (now1 e')"
        by (simp add: w' cache_fresh_stored)
    qed
    then show "calls es (snd (mustNotifyUpgrade e w)) = snd (mustNotifyUpgrade e w)"
      by (rule calls_fresh)
  }
qed

theorem mustNotifyUpgrade_caching_witness:
  "mustNotifyUpgrade
     \<lparr>pathname = ''/x/lume@v1.2.0/'', now1 = 3600000, now2 = 3600001,
      response = (\<lambda>u. Inr ''v1.3.0'')\<rparr>
     \<lparr>localStorage = [''lume-upgrade'' \<mapsto> ''0''], fetched = []\<rparr>
   = (Inr None, \<lparr>localStorage = [''lume-upgrade'' \<mapsto> ''0''], fetched = []\<rparr>) \<and>
   mustNotifyUpgrade
     \<lparr>pathname = ''/x/lume@v1.2.0/'', now1 = 90000000, now2 = 90000001,
      response = (\<lambda>u. Inl NetworkError)\<rparr>
     \<lparr>localStorage = [''lume-upgrade'' \<mapsto> ''0''], fetched = []\<rparr>
   = (Inl NetworkError,
      \<lparr>localStorage = [''lume-upgrade'' \<mapsto> ''90000001''],
       fetched = [''https://cdn.deno.land/lume/meta/versions.json'']\<rparr>) \<and>
   calls [\<lparr>pathname = ''/x/lume@v1.2.0/'', now1 = 93600000, now2 = 93600001,
            response = (\<lambda>u. Inr ''v1.3.0'')\<rparr>]
     \<lparr>localStorage = [''lume-upgrade'' \<mapsto> ''90000001''],
      fetched = [''https://cdn.deno.land/lume/meta/versions.json'']\<rparr>
   = \<lparr>localStorage = [''lume-upgrade'' \<mapsto> ''90000001''],
      fetched = [''https://cdn.deno.land/lume/meta/versions.json'']\<rparr>"
proof -
  let ?w = "\<lparr>localStorage = [''lume-upgrade'' \<mapsto> ''0''], fetched = []\<rparr>"
  let ?e1 = "\<lparr>pathname = ''/x/lume@v1.2.0/'', now1 = 3600000, now2 = 3600001,
      response = (\<lambda>u. Inr ''v1.3.0'')\<rparr>"
  let ?e25 = "\<lparr>pathname = ''/x/lume@v1.2.0/'', now1 = 90000000, now2 = 90000001,
      response = (\<lambda>u. Inl NetworkError)\<rparr>"
  let ?e26 = "\<lparr>pathname = ''/x/lume@v1.2.0/'', now1 = 93600000, now2 = 93600001,
            response = (\<lambda>u. Inr ''v1.3.0'')\<rparr>"
  have p: "parseInt ''0'' = Some 0"
    by (simp add: parseInt_def strip_sign_def strip_radix_def is_white_def is_digit_of_def
        digit_value_def digits_value_def)
  have fresh: "localStorage ?w ''lume-upgrade'' = Some ''0'' \<and> ''0'' \<noteq> [] \<and>
      parseInt ''0'' = Some 0 \<and> now1 ?e1 - 0 < expires"
    by (simp add: p expires_def)
  have notlocal: "take 6 (getCurrentVersion (pathname ?e25)) \<noteq> ''local ''"
    by (simp add: getCurrentVersion_def)
  have stale: "\<not> cache_fresh (localStorage ?w ''lume-upgrade'') (now1 ?e25)"
    by (simp add: cache_fresh_def p expires_def)
  have later: "\<forall>e' \<in> set [?e26]. now1 e' - now2 ?e25 < expires"
    by (simp add: expires_def)
  let ?w' = "\<lparr>localStorage = [''lume-upgrade'' \<mapsto> ''90000001''],
      fetched = [''https://cdn.deno.land/lume/meta/versions.json'']\<rparr>"
  have A: "mustNotifyUpgrade ?e1 ?w = (Inr None, ?w)"
    using mustNotifyUpgrade_caching [of ?w "''0''" 0 ?e1] fresh by blast
  have "calls [?e26] (snd (mustNotifyUpgrade ?e25 ?w)) = snd (mustNotifyUpgrade ?e25 ?w)"
    using mustNotifyUpgrade_caching [of ?w _ _ ?e25 _ "[?e26]"] notlocal stale later by blast
  then have C: "calls [?e26] ?w' = ?w'"
    by (simp only: example_check_after_25h snd_conv)
  show ?thesis using A example_check_after_25h C by (intro conjI)
qed

text \<open>
  C4 as stated fails on a local copy: 25 hours after the recorded check the call returns
  none with no URL fetched, and the stored timestamp is still the old one.
\<close>

theorem mustNotifyUpgrade_local_skips_check:
  "mustNotifyUpgrade
     \<lparr>pathname = ''/home/me/lume/'', now1 = 90000000, now2 = 90000001,
      response = (\<lambda>u. Inr ''v1.3.0'')\<rparr>
     \<lparr>localStorage = [''lume-upgrade'' \<mapsto> ''0''], fetched = []\<rparr>
   = (Inr None, \<lparr>localStorage = [''lume-upgrade'' \<mapsto> ''0''], fetched = []\<rparr>)"
  by (rule example_local)

section \<open>Properties of the deep merge\<close>

subsection \<open>Where the plain-object test answers and the merge returns\<close>















subsection \<open>The rule of the merge, key by key\<close>

text \<open>
  What \<open>merge\<close> returns when it returns: without a user value, a fresh object with the
  properties of the defaults; else an object whose keys are those of the defaults and of
  the user, where a key the user does not have keeps the default, and a key the user has
  holds the merge of the two values when \<open>isPlainObject\<close> answers true on both, and the
  user's value otherwise.
\<close>

lemma merge_absent:
  "\<not> truthy user \<Longrightarrow> merge defaults user = Inr (Object ObjectPrototype (own_props defaults))"
  by simp

lemma merge_entries_step:
  assumes "merge_entries merged ((key, v) # rest) = Inr m"
  obtains r where "merge_entries (AList.update key r merged) rest = Inr m"
    and "if isPlainObject (get merged key) = Inr True \<and> isPlainObject v = Inr True
         then merge (get merged key) v = Inr r else r = v"
  using assms by (auto split: sum.splits bool.splits if_splits)

lemma merge_entries_other:
  "merge_entries merged es = Inr m \<Longrightarrow> k \<notin> fst ` set es \<Longrightarrow> map_of m k = map_of merged k"
proof (induction es arbitrary: merged)
  case Nil
  then show ?case by simp
next
  case (Cons e es)
  obtain key v where e: "e = (key, v)" by (cases e)
  from Cons.prems(1) obtain r where 1: "merge_entries (AList.update key r merged) es = Inr m"
    unfolding e by (rule merge_entries_step)
  have "map_of m k = map_of (AList.update key r merged) k"
    using 1 Cons.prems(2) by (intro Cons.IH) simp_all
  also have "\<dots> = map_of merged k" using Cons.prems(2) e by (simp add: update_conv')
  finally show ?case .
qed

lemma merge_entries_keys:
  "merge_entries merged es = Inr m \<Longrightarrow> fst ` set m = fst ` set merged \<union> fst ` set es"
proof (induction es arbitrary: merged)
  case Nil
  then show ?case by simp
next
  case (Cons e es)
  obtain key v where e: "e = (key, v)" by (cases e)
  from Cons.prems(1) obtain r where 1: "merge_entries (AList.update key r merged) es = Inr m"
    unfolding e by (rule merge_entries_step)
  have "fst ` set m = fst ` set (AList.update key r merged) \<union> fst ` set es"
    using 1 by (rule Cons.IH)
  then show ?case by (simp add: e dom_update)
qed

lemma merge_entries_rule:
  assumes "merge_entries merged es = Inr m" "distinct (map fst es)" "(k, v) \<in> set es"
  shows "if isPlainObject (get merged k) = Inr True \<and> isPlainObject v = Inr True
         then merge (get merged k) v = Inr (get m k) else get m k = v"
  using assms
proof (induction es arbitrary: merged)
  case Nil
  then show ?case by simp
next
  case (Cons e es)
  obtain key w where e: "e = (key, w)" by (cases e)
  from Cons.prems(1) obtain r where 1: "merge_entries (AList.update key r merged) es = Inr m"
    and 2: "if isPlainObject (get merged key) = Inr True \<and> isPlainObject w = Inr True
            then merge (get merged key) w = Inr r else r = w"
    unfolding e by (rule merge_entries_step)
  show ?case
  proof (cases "(k, v) = e")
    case True
    then have kv: "key = k" "w = v" using e by simp_all
    have "k \<notin> fst ` set es" using Cons.prems(2) e kv by force
    with 1 have "map_of m k = map_of (AList.update key r merged) k" by (rule merge_entries_other)
    then have "get m k = r" by (simp add: get_def update_conv' kv)
    with 2 show ?thesis unfolding kv by (simp del: merge.simps)
  next
    case False
    then have in_rest: "(k, v) \<in> set es" using Cons.prems(3) by simp
    then have "k \<in> fst ` set es" by force
    then have ne: "key \<noteq> k" using Cons.prems(2) e by auto
    have g: "get (AList.update key r merged) k = get merged k"
      using ne by (simp add: get_def update_conv')
    have "distinct (map fst es)" using Cons.prems(2) by simp
    from Cons.IH [OF 1 this in_rest] show ?thesis unfolding g .
  qed
qed

lemma merge_rule:
  assumes "truthy user" and "merge defaults user = Inr r"
    and "distinct (map fst (own_props user))" and "(k, v) \<in> set (own_props user)"
  obtains m where "r = Object ObjectPrototype m"
    and "fst ` set m = fst ` set (own_props defaults) \<union> fst ` set (own_props user)"
    and "if isPlainObject (get (own_props defaults) k) = Inr True \<and> isPlainObject v = Inr True
         then merge (get (own_props defaults) k) v = Inr (get m k) else get m k = v"
proof -
  from assms(1,2) obtain m where m: "merge_entries (own_props defaults) (own_props user) = Inr m"
    and r: "r = Object ObjectPrototype m"
    by (auto split: sum.splits)
  from m have "fst ` set m = fst ` set (own_props defaults) \<union> fst ` set (own_props user)"
    by (rule merge_entries_keys)
  moreover from m assms(3,4)
  have "if isPlainObject (get (own_props defaults) k) = Inr True \<and> isPlainObject v = Inr True
        then merge (get (own_props defaults) k) v = Inr (get m k) else get m k = v"
    by (rule merge_entries_rule)
  ultimately show ?thesis using r that by blast
qed

subsection \<open>The merge in a store writes to what it allocates\<close>

lemma h_set_length [simp]: "length (h_set h a key v) = length h"
  by (simp add: h_set_def split: option.splits hobj.splits)

lemma h_set_other: "b \<noteq> a \<Longrightarrow> h_set h a key v ! b = h ! b"
  by (simp add: h_set_def split: option.splits hobj.splits)

lemma merge_h_frame:
  "merge_h n h defaults user = Some (res, h') \<Longrightarrow>
     length h \<le> length h' \<and> (\<forall>a < length h. h' ! a = h ! a)"
  "merge_entries_h n h merged es = Some (res, h') \<Longrightarrow>
     length h \<le> length h' \<and> (\<forall>a < length h. a \<noteq> merged \<longrightarrow> h' ! a = h ! a)"
proof (induction n h defaults user and n h merged es arbitrary: res h' and res h'
       rule: merge_h_merge_entries_h.induct)
  case (1 h defaults user)
  then show ?case by simp
next
  case (2 n h defaults user)
  let ?h1 = "h @ [HObject ObjectPrototype (h_own_props h defaults)]"
  show ?case
  proof (cases "h_truthy user")
    case False
    with "2.prems" show ?thesis by (auto simp: Let_def nth_append)
  next
    case True
    with "2.prems" have e: "merge_entries_h n ?h1 (length h) (h_own_props ?h1 user) = Some (res, h')"
      by (simp add: Let_def)
    from "2.IH" [OF refl refl _ e] True
    have "length ?h1 \<le> length h'" "\<forall>a < length ?h1. a \<noteq> length h \<longrightarrow> h' ! a = ?h1 ! a"
      by simp_all
    then show ?thesis by (auto simp: nth_append)
  qed
next
  case (3 n h merged)
  then show ?case by simp
next
  case (4 n h merged key "value" rest)
  let ?g = "h_get h merged key"
  note run = "4.prems"
  from run obtain p where p: "h_isPlainObject n h ?g = Some p"
    by (cases "h_isPlainObject n h ?g") simp_all
  have keep: "length h \<le> length h' \<and> (\<forall>a < length h. a \<noteq> merged \<longrightarrow> h' ! a = h ! a)"
    if "merge_entries_h n (h_set h merged key value) merged rest = Some (res, h')"
      and "length (h_set h merged key value) \<le> length h' \<and>
           (\<forall>a < length (h_set h merged key value). a \<noteq> merged \<longrightarrow>
              h' ! a = h_set h merged key value ! a)"
    using that(2) by (simp add: h_set_other)
  show ?case
  proof (cases p)
    case (Inl e)
    with run p show ?thesis by simp
  next
    case (Inr b)
    show ?thesis
    proof (cases b)
      case False
      then have bF: "b = False" by simp
      with run p Inr have r: "merge_entries_h n (h_set h merged key value) merged rest = Some (res, h')"
        by simp
      from keep [OF r "4.IH"(4) [OF p Inr bF r]] show ?thesis .
    next
      case True
      then have bT: "b = True" by simp
      from run p Inr True obtain q where q: "h_isPlainObject n h value = Some q"
        by (cases "h_isPlainObject n h value") simp_all
      show ?thesis
      proof (cases q)
        case (Inl e)
        with run p \<open>p = Inr b\<close> True q show ?thesis by simp
      next
        case c: (Inr c)
        show ?thesis
        proof (cases c)
          case False
          then have cF: "c = False" by simp
          with run p Inr True q c
          have r: "merge_entries_h n (h_set h merged key value) merged rest = Some (res, h')"
            by simp
          from keep [OF r "4.IH"(3) [OF p Inr bT q c cF r]] show ?thesis .
        next
          case ct: True
          then have cT: "c = True" by simp
          from run p Inr True q c ct obtain x y where m: "merge_h n h ?g value = Some (x, y)"
            by (cases "merge_h n h ?g value") auto
          from "4.IH"(1) [OF p Inr bT q c cT m]
          have y: "length h \<le> length y" "\<forall>a < length h. y ! a = h ! a" by simp_all
          show ?thesis
          proof (cases x)
            case (Inl e)
            with run p Inr True q c ct m have "h' = y" by simp
            with y show ?thesis by simp
          next
            case r: (Inr r)
            with run p Inr True q c ct m
            have e: "merge_entries_h n (h_set y merged key r) merged rest = Some (res, h')"
              by simp
            from "4.IH"(2) [OF p Inr bT q c cT m refl r e]
            have "length y \<le> length h'"
              "\<forall>a < length y. a \<noteq> merged \<longrightarrow> h' ! a = h_set y merged key r ! a"
              by simp_all
            with y show ?thesis by (auto simp: h_set_other)
          qed
        qed
      qed
    qed
  qed
qed

subsection \<open>The depth allowed does not change what the merge in a store returns\<close>

text \<open>
  The first argument of \<open>merge_h\<close> bounds the depth of the recursion. A call that returns
  within some depth returns the same result and store within any greater depth.
\<close>


lemma h_to_string_mono:
  "h_to_string n h v = Some r \<Longrightarrow> h_to_string (Suc n) h v = Some r"
  "h_element_strings n h xs = Some rs \<Longrightarrow> h_element_strings (Suc n) h xs = Some rs"
proof (induction n h v and n h xs arbitrary: r and rs rule: h_to_string_h_element_strings.induct)
  case (1 h v)
  then show ?case by simp
next
  case (2 n h a)
  show ?case
  proof (cases "obj_at h a")
    case None
    with "2.prems" show ?thesis by simp
  next
    case (Some ob)
    show ?thesis
    proof (cases ob)
      case (HArray xs)
      with "2.prems" Some obtain q where q: "h_element_strings n h xs = Some q"
        by (cases "h_element_strings n h xs") simp_all
      from "2.IH" [OF Some HArray q] have "h_element_strings (Suc n) h xs = Some q" .
      with "2.prems" Some HArray q show ?thesis by simp
    qed (use "2.prems" Some in simp_all)
  qed
next
  case (4 n h)
  then show ?case by simp
next
  case (5 n h x xs)
  let ?hd = "\<lambda>n. if x = HUndefined \<or> x = HNull then Some (Inr []) else h_to_string n h x"
  from "5.prems" obtain p where p: "?hd n = Some p"
    by (cases "?hd n") auto
  have p': "?hd (Suc n) = Some p"
  proof (cases "x = HUndefined \<or> x = HNull")
    case True
    with p show ?thesis by auto
  next
    case False
    with p have "h_to_string n h x = Some p" by simp
    from "5.IH"(1) [OF False this] False show ?thesis by simp
  qed
  show ?case
  proof (cases p)
    case (Inl e)
    with "5.prems" p have "rs = Inl e" by (auto simp del: h_to_string.simps)
    with p' Inl show ?thesis by (auto simp del: h_to_string.simps)
  next
    case (Inr s)
    with "5.prems" p obtain q where q: "h_element_strings n h xs = Some q"
      by (cases "h_element_strings n h xs") (auto simp del: h_to_string.simps)
    from "5.IH"(2) [OF p Inr q] have q': "h_element_strings (Suc n) h xs = Some q" .
    from "5.prems" p Inr q have "rs = (case q of Inl e \<Rightarrow> Inl e | Inr ss \<Rightarrow> Inr (s # ss))"
      by (auto simp del: h_to_string.simps split: sum.splits)
    with p' Inr q' show ?thesis by (auto simp del: h_to_string.simps split: sum.splits)
  qed
qed simp_all


lemma h_toString_mono:
  "h_toString n h v = Some r \<Longrightarrow> h_toString (Suc n) h v = Some r"
  unfolding h_toString_def using h_to_string_mono(1) [of n h v]
  by (auto simp del: h_to_string.simps split: hval.splits option.splits hobj.splits sum.splits)

lemma h_isPlainObject_mono:
  "h_isPlainObject n h v = Some r \<Longrightarrow> h_isPlainObject (Suc n) h v = Some r"
  unfolding h_isPlainObject_def using h_toString_mono [of n h v]
  by (auto split: option.splits sum.splits if_splits)

lemma merge_h_mono:
  "merge_h n h defaults user = Some r \<Longrightarrow> merge_h (Suc n) h defaults user = Some r"
  "merge_entries_h n h merged es = Some r \<Longrightarrow> merge_entries_h (Suc n) h merged es = Some r"
proof (induction n h defaults user and n h merged es arbitrary: r and r
       rule: merge_h_merge_entries_h.induct)
  case (1 h defaults user)
  then show ?case by simp
next
  case (2 n h defaults user)
  let ?h1 = "h @ [HObject ObjectPrototype (h_own_props h defaults)]"
  show ?case
  proof (cases "h_truthy user")
    case False
    with "2.prems" show ?thesis by (simp add: Let_def)
  next
    case True
    with "2.prems" have e: "merge_entries_h n ?h1 (length h) (h_own_props ?h1 user) = Some r"
      by (simp add: Let_def)
    from "2.IH" [OF refl refl _ e] True
    have "merge_entries_h (Suc n) ?h1 (length h) (h_own_props ?h1 user) = Some r" by simp
    with True show ?thesis by (simp add: Let_def del: merge_entries_h.simps)
  qed
next
  case (3 n h merged)
  then show ?case by simp
next
  case (4 n h merged key "value" rest)
  let ?g = "h_get h merged key"
  note run = "4.prems"
  from run obtain p where p: "h_isPlainObject n h ?g = Some p"
    by (cases "h_isPlainObject n h ?g") simp_all
  then have p': "h_isPlainObject (Suc n) h ?g = Some p" by (rule h_isPlainObject_mono)
  show ?case
  proof (cases p)
    case (Inl e)
    with run p p' show ?thesis by (simp del: merge_h.simps)
  next
    case (Inr b)
    show ?thesis
    proof (cases b)
      case False
      then have bF: "b = False" by simp
      with run p Inr have r: "merge_entries_h n (h_set h merged key value) merged rest = Some r"
        by simp
      from "4.IH"(4) [OF p Inr bF r] p' Inr bF show ?thesis by (simp del: merge_h.simps)
    next
      case True
      then have bT: "b = True" by simp
      from run p Inr True obtain q where q: "h_isPlainObject n h value = Some q"
        by (cases "h_isPlainObject n h value") simp_all
      then have q': "h_isPlainObject (Suc n) h value = Some q" by (rule h_isPlainObject_mono)
      show ?thesis
      proof (cases q)
        case (Inl e)
        with run p p' \<open>p = Inr b\<close> True q q' show ?thesis by (simp del: merge_h.simps)
      next
        case c: (Inr c)
        show ?thesis
        proof (cases c)
          case False
          then have cF: "c = False" by simp
          with run p Inr True q c
          have r: "merge_entries_h n (h_set h merged key value) merged rest = Some r"
            by simp
          from "4.IH"(3) [OF p Inr bT q c cF r] p' q' Inr bT c cF show ?thesis
            by (simp del: merge_h.simps)
        next
          case True
          then have cT: "c = True" by simp
          from run p Inr bT q c cT obtain m where m: "merge_h n h ?g value = Some m"
            by (cases "merge_h n h ?g value") simp_all
          from "4.IH"(1) [OF p Inr bT q c cT m]
          have m': "merge_h (Suc n) h ?g value = Some m" .
          obtain res h' where mm: "m = (res, h')" by (cases m)
          show ?thesis
          proof (cases res)
            case (Inl e)
            with run p Inr bT q c cT m mm have "r = (Inl e, h')" by simp
            with p' q' Inr bT c cT m' mm Inl show ?thesis by (simp del: merge_h.simps)
          next
            case v: (Inr v)
            with run p Inr bT q c cT m mm
            have r: "merge_entries_h n (h_set h' merged key v) merged rest = Some r" by simp
            from "4.IH"(2) [OF p Inr bT q c cT m mm [symmetric] v r]
            have "merge_entries_h (Suc n) (h_set h' merged key v) merged rest = Some r" .
            with p' q' Inr bT c cT m' mm v show ?thesis by (simp del: merge_h.simps)
          qed
        qed
      qed
    qed
  qed
qed

lemma merge_h_fuel:
  assumes "merge_h n h defaults user = Some r" and "n \<le> n'"
  shows "merge_h n' h defaults user = Some r"
  using assms(2,1) by (induction n' rule: dec_induct) (simp_all del: merge_h.simps add: merge_h_mono(1))

subsection \<open>Runs of the merge\<close>

text \<open>
  The spec's examples; two configurations whose \<open>list\<close> is an array of one object; the
  spec's recursion example in a store, where the arguments are the objects at addresses 0
  to 3; and two objects that are each their own property \<open>a\<close>.
\<close>

lemma merge_example:
  "merge (Object ObjectPrototype [(''a'', Num 1), (''b'', Object ObjectPrototype [(''x'', Num 1), (''y'', Num 2)])])
         (Object ObjectPrototype [(''b'', Object ObjectPrototype [(''y'', Num 3), (''z'', Num 4)])])
   = Inr (Object ObjectPrototype
           [(''a'', Num 1), (''b'', Object ObjectPrototype [(''x'', Num 1), (''y'', Num 3), (''z'', Num 4)])])"
  by (simp add: isPlainObject_def get_def call_method_def reactElement_def)

lemma merge_replaces_list:
  "merge (Object ObjectPrototype [(''list'', Array [Num 1, Num 2])])
         (Object ObjectPrototype [(''list'', Array [Num 3])])
   = Inr (Object ObjectPrototype [(''list'', Array [Num 3])])"
  by (simp add: isPlainObject_def get_def number_toString_def digits.simps digit_char_def)

lemma merge_arrays:
  "merge (Object ObjectPrototype [(''list'', Array [Object ObjectPrototype [(''a'', Num 1)]])])
         (Object ObjectPrototype [(''list'', Array [Object ObjectPrototype [(''b'', Num 2)]])])
   = Inr (Object ObjectPrototype
           [(''list'', Object ObjectPrototype [(''0'', Object ObjectPrototype [(''a'', Num 1), (''b'', Num 2)])])])"
  by (simp add: isPlainObject_def get_def call_method_def reactElement_def object_to_string_def
      digits.simps digit_char_def)


lemma merge_h_example:
  "merge_h 5
     [HObject ObjectPrototype [(''a'', HNum 1), (''b'', Ref 1)],
      HObject ObjectPrototype [(''x'', HNum 1), (''y'', HNum 2)],
      HObject ObjectPrototype [(''b'', Ref 3)],
      HObject ObjectPrototype [(''y'', HNum 3), (''z'', HNum 4)]] (Ref 0) (Ref 2)
   = Some (Inr (Ref 4),
     [HObject ObjectPrototype [(''a'', HNum 1), (''b'', Ref 1)],
      HObject ObjectPrototype [(''x'', HNum 1), (''y'', HNum 2)],
      HObject ObjectPrototype [(''b'', Ref 3)],
      HObject ObjectPrototype [(''y'', HNum 3), (''z'', HNum 4)],
      HObject ObjectPrototype [(''a'', HNum 1), (''b'', Ref 5)],
      HObject ObjectPrototype [(''x'', HNum 1), (''y'', HNum 3), (''z'', HNum 4)]])"
  by (simp add: eval_nat_numeral Let_def obj_at_def h_isPlainObject_def h_toString_def
      h_call_method_def h_get_def h_set_def)

subsection \<open>Claims on the deep merge\<close>

text \<open>
  C3 fails on the code where the two values at a key are arrays of one plain object each.
  \<open>isPlainObject\<close> compares \<^verbatim>\<open>obj.toString()\<close> with \<^verbatim>\<open>[object Object]\<close>, and that is what an
  array of one plain object prints; so \<open>merge\<close> takes both arrays for plain objects and
  recurses on them: \<^verbatim>\<open>merge({list: [{a: 1}]}, {list: [{b: 2}]})\<close> is
  \<^verbatim>\<open>{list: {"0": {a: 1, b: 2}}}\<close>, where the claim has the user's sequence replace the
  default's: \<^verbatim>\<open>{list: [{b: 2}]}\<close>. With \<open>isPlainObject\<close> as the test of a plain mapping,
  the rest of the claim is the rule of the merge proved above, key by key.
\<close>

theorem merge_recurses_into_arrays_of_one_object:
  "isPlainObject (Array [Object ObjectPrototype [(''b'', Num 2)]]) = Inr True \<and>
   merge (Object ObjectPrototype [(''list'', Array [Object ObjectPrototype [(''a'', Num 1)]])])
         (Object ObjectPrototype [(''list'', Array [Object ObjectPrototype [(''b'', Num 2)]])])
   = Inr (Object ObjectPrototype
           [(''list'', Object ObjectPrototype [(''0'', Object ObjectPrototype [(''a'', Num 1), (''b'', Num 2)])])])"
proof (intro conjI)
  show "isPlainObject (Array [Object ObjectPrototype [(''b'', Num 2)]]) = Inr True"
    by (simp add: isPlainObject_def call_method_def object_to_string_def reactElement_def)
qed (rule merge_arrays)




text \<open>
  C7. Whatever \<open>merge\<close> returns or throws, the store it leaves begins with the store it was
  given: every object that existed before the call, \<open>defaults\<close>, \<open>user\<close> and all they reach
  among them, has the properties it had, and the call has only added objects. This holds
  at every depth allowed to the recursion, and the depth does not change the outcome of a
  call that returns (\<open>merge_h_fuel\<close>). The witness is the spec's recursion example on the
  objects at addresses 0 to 3.
\<close>

theorem merge_h_leaves_arguments:
  assumes "merge_h n h defaults user = Some (res, h')"
  shows "take (length h) h' = h"
proof -
  from merge_h_frame(1) [OF assms]
  have "length h \<le> length h'" "\<forall>a < length h. h' ! a = h ! a" by simp_all
  then show ?thesis by (intro nth_equalityI) simp_all
qed

theorem merge_h_leaves_arguments_witness:
  "merge_h 5
     [HObject ObjectPrototype [(''a'', HNum 1), (''b'', Ref 1)],
      HObject ObjectPrototype [(''x'', HNum 1), (''y'', HNum 2)],
      HObject ObjectPrototype [(''b'', Ref 3)],
      HObject ObjectPrototype [(''y'', HNum 3), (''z'', HNum 4)]] (Ref 0) (Ref 2)
   = Some (Inr (Ref 4),
     [HObject ObjectPrototype [(''a'', HNum 1), (''b'', Ref 1)],
      HObject ObjectPrototype [(''x'', HNum 1), (''y'', HNum 2)],
      HObject ObjectPrototype [(''b'', Ref 3)],
      HObject ObjectPrototype [(''y'', HNum 3), (''z'', HNum 4)],
      HObject ObjectPrototype [(''a'', HNum 1), (''b'', Ref 5)],
      HObject ObjectPrototype [(''x'', HNum 1), (''y'', HNum 3), (''z'', HNum 4)]]) \<and>
   take 4
     [HObject ObjectPrototype [(''a'', HNum 1), (''b'', Ref 1)],
      HObject ObjectPrototype [(''x'', HNum 1), (''y'', HNum 2)],
      HObject ObjectPrototype [(''b'', Ref 3)],
      HObject ObjectPrototype [(''y'', HNum 3), (''z'', HNum 4)],
      HObject ObjectPrototype [(''a'', HNum 1), (''b'', Ref 5)],
      HObject ObjectPrototype [(''x'', HNum 1), (''y'', HNum 3), (''z'', HNum 4)]]
   = [HObject ObjectPrototype [(''a'', HNum 1), (''b'', Ref 1)],
      HObject ObjectPrototype [(''x'', HNum 1), (''y'', HNum 2)],
      HObject ObjectPrototype [(''b'', Ref 3)],
      HObject ObjectPrototype [(''y'', HNum 3), (''z'', HNum 4)]]"
  using merge_h_leaves_arguments [OF merge_h_example] merge_h_example by simp

end
